theory Spec2Isabelle
  imports Main "HOL-Library.Multiset" "HOL-Library.Product_Lexorder"
begin

section \<open>Python values shared by the three modules\<close>

text \<open>
  Exceptions the modelled functions can raise, with the message text where the source
  formats one. Both failures of the room allocator are \<open>ValueError\<close>s.
\<close>

datatype error = ValueError string | KeyError string | TypeError string | ZeroDivisionError

text \<open>\<open>str(n)\<close> for an integer, as the f-string of the capacity message prints it.\<close>

definition digit_char :: "nat \<Rightarrow> char" where
  "digit_char d = char_of (48 + d)"

fun str_nat :: "nat \<Rightarrow> string" where
  "str_nat n = (if n < 10 then [digit_char n] else str_nat (n div 10) @ [digit_char (n mod 10)])"

definition str_int :: "int \<Rightarrow> string" where
  "str_int i = (if i < 0 then CHR ''-'' # str_nat (nat (- i)) else str_nat (nat i))"

text \<open>\<open>range(n)\<close>: empty when \<open>n \<le> 0\<close>.\<close>

definition py_range :: "int \<Rightarrow> int list" where
  "py_range n = map int [0..<nat n]"

text \<open>
  \<open>d[k].append(v)\<close> on a \<open>defaultdict(list)\<close>; the dictionary is kept as an association
  list in insertion order, which is the order \<open>values()\<close> and \<open>items()\<close> iterate in.
\<close>

fun dict_append :: "('k \<times> 'v list) list \<Rightarrow> 'k \<Rightarrow> 'v list \<Rightarrow> ('k \<times> 'v list) list" where
  "dict_append [] k vs = [(k, vs)]"
| "dict_append ((k', l) # d) k vs =
     (if k' = k then (k', l @ vs) # d else (k', l) # dict_append d k vs)"

text \<open>\<open>d[k]\<close> on a \<open>defaultdict(list)\<close> that holds the key, and \<open>d[k] = v\<close>.\<close>

definition dict_get :: "('k \<times> 'v list) list \<Rightarrow> 'k \<Rightarrow> 'v list" where
  "dict_get d k = (case map_of d k of None \<Rightarrow> [] | Some l \<Rightarrow> l)"

fun dict_set :: "('k \<times> 'v) list \<Rightarrow> 'k \<Rightarrow> 'v \<Rightarrow> ('k \<times> 'v) list" where
  "dict_set [] k v = [(k, v)]"
| "dict_set ((k', l) # d) k v = (if k' = k then (k', v) # d else (k', l) # dict_set d k v)"

text \<open>
  \<open>max(xs, key=f)\<close> on a non-empty sequence keeps the first element whose key is
  maximal: a later element replaces the current best only when its key is strictly larger.
\<close>

definition py_max :: "('a \<Rightarrow> 'k::linorder) \<Rightarrow> 'a \<Rightarrow> 'a list \<Rightarrow> 'a" where
  "py_max f x xs = foldl (\<lambda>best y. if f best < f y then y else best) x xs"


section \<open>Conflict graph and colouring (conflict_graph.py)\<close>

text \<open>
  An undirected \<open>networkx.Graph\<close>: the nodes in insertion order and, for every node, its
  adjacency dictionary from neighbour to the edge's \<open>weight\<close> attribute (\<open>None\<close> for an
  edge added without one). A self-loop is one entry of the node's own dictionary.
\<close>

record 'a graph =
  nodes :: "'a list"
  adj :: "'a \<Rightarrow> ('a \<times> int option) list"

definition empty_graph :: "'a graph" where
  "empty_graph = \<lparr> nodes = [], adj = (\<lambda>_. []) \<rparr>"

definition add_node :: "'a graph \<Rightarrow> 'a \<Rightarrow> 'a graph" where
  "add_node g n = (if n \<in> set (nodes g) then g else g\<lparr> nodes := nodes g @ [n] \<rparr>)"

definition has_edge :: "'a graph \<Rightarrow> 'a \<Rightarrow> 'a \<Rightarrow> bool" where
  "has_edge g u v \<longleftrightarrow> v \<in> set (map fst (adj g u))"

text \<open>
  \<open>add_edge(u, v, weight=w)\<close> adds missing end points and writes the attribute on both
  sides; without \<open>weight\<close> an existing attribute stays.
\<close>

definition add_edge :: "'a graph \<Rightarrow> 'a \<Rightarrow> 'a \<Rightarrow> int option \<Rightarrow> 'a graph" where
  "add_edge g u v w =
     (let g1 = add_node (add_node g u) v;
          attr = (case w of Some x \<Rightarrow> Some x
                  | None \<Rightarrow> (case map_of (adj g1 u) v of Some a \<Rightarrow> a | None \<Rightarrow> None));
          adj1 = (adj g1)(u := dict_set (adj g1 u) v attr);
          adj2 = adj1(v := dict_set (adj1 v) u attr)
      in g1\<lparr> adj := adj2 \<rparr>)"

definition neighbors :: "'a graph \<Rightarrow> 'a \<Rightarrow> 'a list" where
  "neighbors g n = map fst (adj g n)"

text \<open>\<open>graph.degree()\<close>: the number of neighbours, a self-loop counting twice.\<close>

definition degree :: "'a graph \<Rightarrow> 'a \<Rightarrow> nat" where
  "degree g n = length (adj g n) + (if n \<in> set (map fst (adj g n)) then 1 else 0)"

text \<open>
  A roster row. The cells are strings; \<open>row.get('Batch', '')\<close> and its like are the
  cell, or the empty string for a roster without that column.
\<close>

record row =
  row_StudentID :: string
  row_ExamDate :: string
  row_ExamTime :: string
  row_Batch :: string
  row_Year :: string
  row_Department :: string

text \<open>
  The two nested loops over \<open>i < j\<close>: the row at \<open>i\<close> is paired with every later row,
  and the body of the inner loop is the step function. \<open>weight\<close> is \<open>Some 10\<close> in the
  enhanced graph and \<open>None\<close> in the basic one. The section pass has the same shape.
\<close>

definition time_conflict_step :: "int option \<Rightarrow> row \<Rightarrow> string graph \<Rightarrow> row \<Rightarrow> string graph" where
  "time_conflict_step weight s1 g s2 =
     (if row_ExamDate s1 = row_ExamDate s2 \<and> row_ExamTime s1 = row_ExamTime s2
      then add_edge g (row_StudentID s1) (row_StudentID s2) weight else g)"

fun time_conflict_edges :: "int option \<Rightarrow> row list \<Rightarrow> string graph \<Rightarrow> string graph" where
  "time_conflict_edges weight [] g = g"
| "time_conflict_edges weight (s1 # later) g =
     time_conflict_edges weight later (foldl (time_conflict_step weight s1) g later)"

definition FRIEND_EDGE_WEIGHT :: int where
  "FRIEND_EDGE_WEIGHT = 5"

definition SECTION_EDGE_WEIGHT :: int where
  "SECTION_EDGE_WEIGHT = 2"

text \<open>
  One friend pair. An existing edge gets its weight raised on both sides (the attribute
  dictionary is shared); every edge of the enhanced graph carries a weight.
\<close>

definition add_friend_pair :: "string set \<Rightarrow> string graph \<Rightarrow> string \<times> string \<Rightarrow> string graph" where
  "add_friend_pair student_ids g pair =
     (case pair of (s1_id, s2_id) \<Rightarrow>
        if s1_id \<in> student_ids \<and> s2_id \<in> student_ids then
          (if has_edge g s1_id s2_id then
             (let attr = (case map_of (adj g s1_id) s2_id of
                            Some (Some x) \<Rightarrow> Some (x + FRIEND_EDGE_WEIGHT) | _ \<Rightarrow> None);
                  adj1 = (adj g)(s1_id := dict_set (adj g s1_id) s2_id attr);
                  adj2 = adj1(s2_id := dict_set (adj1 s2_id) s1_id attr)
              in g\<lparr> adj := adj2 \<rparr>)
           else add_edge g s1_id s2_id (Some FRIEND_EDGE_WEIGHT))
        else g)"

definition section_step :: "string \<Rightarrow> string graph \<Rightarrow> string \<Rightarrow> string graph" where
  "section_step s1 g s2 =
     (if \<not> has_edge g s1 s2 then add_edge g s1 s2 (Some SECTION_EDGE_WEIGHT) else g)"

fun section_edges :: "string list \<Rightarrow> string graph \<Rightarrow> string graph" where
  "section_edges [] g = g"
| "section_edges (s1 # later) g = section_edges later (foldl (section_step s1) g later)"

definition section_groups :: "row list \<Rightarrow> ((string \<times> string \<times> string) \<times> string list) list" where
  "section_groups df =
     foldl (\<lambda>d r. dict_append d (row_Batch r, row_Year r, row_Department r) [row_StudentID r]) [] df"

text \<open>
  \<open>friend_pairs\<close> is a set of pairs, given by a list of its elements in the order the
  loop meets them; \<open>None\<close> reads \<open>db_friend_pairs\<close>, the value of
  \<open>get_friend_pairs_from_db()\<close>.
\<close>

definition build_enhanced_conflict_graph ::
  "(string \<times> string) list \<Rightarrow> row list \<Rightarrow> (string \<times> string) list option \<Rightarrow> bool \<Rightarrow> string graph" where
  "build_enhanced_conflict_graph db_friend_pairs df friend_pairs section_separation =
     (let g0 = foldl add_node empty_graph (map row_StudentID df);
          g1 = time_conflict_edges (Some 10) df g0;
          friend_pairs' = (case friend_pairs of None \<Rightarrow> db_friend_pairs | Some ps \<Rightarrow> ps);
          student_ids = set (map row_StudentID df);
          g2 = foldl (add_friend_pair student_ids) g1 friend_pairs'
      in if section_separation then
           foldl (\<lambda>g students. if length students > 1 then section_edges students g else g)
             g2 (map snd (section_groups df))
         else g2)"

text \<open>\<open>while color in used_colors: color += 1\<close>.\<close>

function first_free_color :: "nat list \<Rightarrow> nat \<Rightarrow> nat" where
  "first_free_color used_colors color =
     (if color \<in> set used_colors then first_free_color used_colors (color + 1) else color)"
  by pat_completeness auto
termination
proof (relation "measure (\<lambda>(used_colors, color). Suc (sum_list used_colors) - color)")
  show "wf (measure (\<lambda>(used_colors, color). Suc (sum_list used_colors) - color))"
    by simp
next
  fix used_colors :: "nat list" and color :: nat
  assume "color \<in> set used_colors"
  then have "color \<le> sum_list used_colors"
    by (simp add: member_le_sum_list)
  then show "((used_colors, color + 1), (used_colors, color))
      \<in> measure (\<lambda>(used_colors, color). Suc (sum_list used_colors) - color)"
    by simp
qed

declare first_free_color.simps [simp del]

text \<open>
  The \<open>while\<close> loop of \<open>dsatur_coloring\<close>. \<open>colors\<close> is a dictionary in insertion order; the
  loop reads the graph through its node list, its neighbour lists and the dictionary of
  degrees. The saturation of a node is the set of colours of its coloured neighbours;
  the key of \<open>max\<close> is the pair of its size and the degree, compared as tuples.
\<close>

definition neighbor_colors :: "('a \<Rightarrow> 'a list) \<Rightarrow> ('a \<times> nat) list \<Rightarrow> 'a \<Rightarrow> nat list" where
  "neighbor_colors nbrs colors node = List.map_filter (map_of colors) (nbrs node)"

function dsatur_loop ::
  "'a list \<Rightarrow> ('a \<Rightarrow> 'a list) \<Rightarrow> ('a \<Rightarrow> nat) \<Rightarrow> ('a \<times> nat) list \<Rightarrow> ('a \<times> nat) list" where
  "dsatur_loop graph_nodes nbrs degrees colors =
     (if length colors < length graph_nodes then
        (case filter (\<lambda>node. node \<notin> set (map fst colors)) graph_nodes of
           [] \<Rightarrow> colors
         | u # us \<Rightarrow>
             (let next_node =
                    py_max (\<lambda>x. (card (set (neighbor_colors nbrs colors x)), degrees x)) u us;
                  used_colors = neighbor_colors nbrs colors next_node;
                  color = first_free_color used_colors 0
              in dsatur_loop graph_nodes nbrs degrees (colors @ [(next_node, color)])))
      else colors)"
  by pat_completeness auto
termination
  by (relation "measure (\<lambda>(graph_nodes, nbrs, degrees, colors). length graph_nodes - length colors)")
    auto

declare dsatur_loop.simps [simp del]

definition dsatur_coloring :: "'a graph \<Rightarrow> ('a \<times> nat) list" where
  "dsatur_coloring g =
     (case nodes g of
        [] \<Rightarrow> []
      | n # ns \<Rightarrow>
          (let current = py_max (degree g) n ns
           in dsatur_loop (nodes g) (neighbors g) (degree g) [(current, 0)]))"

definition basic_conflict_graph :: "row list \<Rightarrow> string graph" where
  "basic_conflict_graph df =
     time_conflict_edges None df (foldl add_node empty_graph (map row_StudentID df))"

definition get_colored_groups ::
  "(string \<times> string) list \<Rightarrow> row list \<Rightarrow> (string \<times> string) list option \<Rightarrow> bool \<Rightarrow> bool
    \<Rightarrow> (nat \<times> string list) list" where
  "get_colored_groups db_friend_pairs df friend_pairs enable_friend_separation enable_section_separation =
     (let g = (if enable_friend_separation \<or> enable_section_separation then
                 build_enhanced_conflict_graph db_friend_pairs df
                   (if enable_friend_separation then friend_pairs else Some [])
                   enable_section_separation
               else basic_conflict_graph df);
          color_mapping = dsatur_coloring g
      in foldl (\<lambda>groups (student, color). dict_append groups color [student]) [] color_mapping)"

section \<open>Room assignment (room_assignment.py)\<close>

text \<open>
  A student's metadata dictionary; \<open>None\<close> is an absent key. All stored values are strings,
  as \<open>extract_student_metadata\<close> writes them.
\<close>

record metadata =
  md_Name :: "string option"
  md_Department :: "string option"
  md_Subject :: "string option"
  md_ExamTime :: "string option"
  md_Year :: "string option"
  md_Branch :: "string option"
  md_Batch :: "string option"

text \<open>
  Class \<open>Student\<close>. \<open>metadata.get('Subject')\<close> and \<open>metadata.get('Department')\<close> yield Python's
  \<open>None\<close> for an absent key, which is kept as \<open>None\<close> here. The built-in \<open>int\<close> is a
  parameter, \<open>to_int\<close>: applied to the value of \<open>metadata.get('Year')\<close> (\<open>None\<close> when the
  key is absent) it gives the integer, or the exception that \<open>int\<close> raises on that value.
\<close>

record Student =
  sid :: string
  year :: int
  subject :: "string option"
  department :: "string option"
  branch :: string
  batch :: string

definition Student_init :: "(string option \<Rightarrow> error + int) \<Rightarrow> string \<Rightarrow> metadata \<Rightarrow> error + Student" where
  "Student_init to_int student_id md =
     (case to_int (md_Year md) of
        Inl e \<Rightarrow> Inl e
      | Inr y \<Rightarrow>
          Inr \<lparr> sid = student_id, year = y, subject = md_Subject md,
                department = md_Department md,
                branch = (case md_Branch md of Some b \<Rightarrow> b
                          | None \<Rightarrow> (case md_Batch md of Some b \<Rightarrow> b | None \<Rightarrow> ''Unknown'')),
                batch = (case md_Batch md of Some b \<Rightarrow> b | None \<Rightarrow> ''Unknown'') \<rparr>)"

text \<open>
  A room's configuration dictionary. \<open>room_name\<close> and \<open>capacity\<close> are read with \<open>[]\<close> and are
  required; the other keys are read with \<open>get\<close>. The value of \<open>allowed_years\<close> is a string
  (given here by the integers of its comma-separated fields, none for the empty string),
  a list, or another iterable of integers. The layout keys are read by the seat placer.
\<close>

datatype allowed_years_value = YearsStr "int list" | YearsList "int list" | YearsOther "int list"

record room_dict =
  cfg_room_name :: string
  cfg_capacity :: int
  cfg_max_subjects :: "int option"
  cfg_max_branches :: "int option"
  cfg_max_departments :: "int option"
  cfg_max_years :: "int option"
  cfg_allowed_years :: "allowed_years_value option"
  cfg_layout_columns :: "int option"
  cfg_columns :: "int option"
  cfg_layout_rows :: "int option"
  cfg_rows :: "int option"

record RoomConfig =
  room_id :: string
  capacity :: int
  max_subjects :: int
  max_branches :: int
  max_departments :: int
  max_years :: int
  allowed_years :: "int set"

definition get_default :: "'a option \<Rightarrow> 'a \<Rightarrow> 'a" where
  "get_default v d = (case v of Some a \<Rightarrow> a | None \<Rightarrow> d)"

definition RoomConfig_init :: "room_dict \<Rightarrow> RoomConfig" where
  "RoomConfig_init config =
     \<lparr> room_id = cfg_room_name config,
       capacity = cfg_capacity config,
       max_subjects = get_default (cfg_max_subjects config) 0,
       max_branches = get_default (cfg_max_branches config) 0,
       max_departments = get_default (cfg_max_departments config) 2,
       max_years = get_default (cfg_max_years config) 2,
       allowed_years =
         (case cfg_allowed_years config of
            None \<Rightarrow> {1, 2, 3, 4, 5, 6}
          | Some (YearsStr ys) \<Rightarrow> (if ys = [] then {1, 2, 3, 4, 5, 6} else set ys)
          | Some (YearsList ys) \<Rightarrow> set ys
          | Some (YearsOther ys) \<Rightarrow> set ys) \<rparr>"

text \<open>
  The per-room bookkeeping dictionary. The first-fit pass also keeps the list of
  student ids in it.
\<close>

record room_status =
  remaining_capacity :: int
  subjects :: "string option set"
  branches :: "string set"
  years :: "int set"
  departments :: "string option set"

record ffd_status = room_status +
  status_students :: "string list"

definition group_years :: "Student list \<Rightarrow> int set" where
  "group_years grp = set (map year grp)"

definition group_subjects :: "Student list \<Rightarrow> string option set" where
  "group_subjects grp = set (map subject grp)"

definition group_branches :: "Student list \<Rightarrow> string set" where
  "group_branches grp = set (map branch grp)"

definition group_departments :: "Student list \<Rightarrow> string option set" where
  "group_departments grp = set (map department grp)"

text \<open>
  \<open>room_status\<close> is a dictionary keyed by the rooms' ids, built from the catalog and read
  only at ids of the catalog; it is a total function here, whose value elsewhere is
  never read. A later room with the same id overwrites an earlier one.
\<close>

definition ffd_room_status :: "RoomConfig list \<Rightarrow> string \<Rightarrow> ffd_status" where
  "ffd_room_status rooms =
     foldl (\<lambda>m room. m(room_id room :=
              \<lparr> remaining_capacity = capacity room, subjects = {}, branches = {}, years = {},
                departments = {}, status_students = [] \<rparr>))
       (\<lambda>_. \<lparr> remaining_capacity = 0, subjects = {}, branches = {}, years = {},
               departments = {}, status_students = [] \<rparr>) rooms"

text \<open>
  The inner loop of \<open>first_fit_decreasing\<close>: the rooms are tried in order, each test that
  fails moves on to the next room (\<open>continue\<close>), the first room that passes all of them
  takes the group (\<open>break\<close>). \<open>None\<close> is \<open>placed = False\<close>.
\<close>

fun ffd_place ::
  "Student list \<Rightarrow> RoomConfig list \<Rightarrow> (string \<Rightarrow> ffd_status) \<times> (string \<times> string list) list
    \<Rightarrow> ((string \<Rightarrow> ffd_status) \<times> (string \<times> string list) list) option" where
  "ffd_place grp [] st = None"
| "ffd_place grp (room # rest) st =
     (let status = fst st (room_id room) in
      if int (length grp) > remaining_capacity status then ffd_place grp rest st
      else if \<not> group_years grp \<subseteq> allowed_years room then ffd_place grp rest st
      else if max_years room > 0 \<and> int (card (years status \<union> group_years grp)) > max_years room
        then ffd_place grp rest st
      else if max_departments room > 0
              \<and> int (card (departments status \<union> group_departments grp)) > max_departments room
        then ffd_place grp rest st
      else if max_subjects room > 0
              \<and> int (card (subjects status \<union> group_subjects grp)) > max_subjects room
        then ffd_place grp rest st
      else if max_branches room > 0
              \<and> int (card (branches status \<union> group_branches grp)) > max_branches room
        then ffd_place grp rest st
      else Some
        ((fst st)(room_id room :=
            status\<lparr> remaining_capacity := remaining_capacity status - int (length grp),
                    subjects := subjects status \<union> group_subjects grp,
                    branches := branches status \<union> group_branches grp,
                    years := years status \<union> group_years grp,
                    departments := departments status \<union> group_departments grp,
                    status_students := status_students status @ map sid grp \<rparr>),
         dict_append (snd st) (room_id room) (map sid grp)))"

text \<open>
  The outer loop: for each group the rooms are sorted by remaining capacity, largest
  first (\<open>sorted\<close> is stable, also with \<open>reverse=True\<close>); a group that no room takes ends
  the pass with \<open>None\<close>.
\<close>

fun ffd_groups ::
  "RoomConfig list \<Rightarrow> Student list list \<Rightarrow> (string \<Rightarrow> ffd_status) \<times> (string \<times> string list) list
    \<Rightarrow> ((string \<Rightarrow> ffd_status) \<times> (string \<times> string list) list) option" where
  "ffd_groups rooms [] st = Some st"
| "ffd_groups rooms (grp # rest) st =
     (let sorted_rooms = sort_key (\<lambda>x. - remaining_capacity (fst st (room_id x))) rooms in
      case ffd_place grp sorted_rooms st of
        None \<Rightarrow> None
      | Some st' \<Rightarrow> ffd_groups rooms rest st')"

definition first_fit_decreasing ::
  "(nat \<times> Student list) list \<Rightarrow> RoomConfig list \<Rightarrow> (string \<times> string list) list option" where
  "first_fit_decreasing groups rooms =
     (let sorted_groups = sort_key (\<lambda>x. - int (length x)) (map snd groups) in
      case ffd_groups rooms sorted_groups (ffd_room_status rooms, []) of
        None \<Rightarrow> None
      | Some st \<Rightarrow> Some (filter (\<lambda>(rid, s_ids). s_ids \<noteq> []) (snd st)))"

text \<open>Backtracking. \<open>can_place\<close> looks the room up by id (the first with that id).\<close>

definition bt_room_status :: "RoomConfig list \<Rightarrow> string \<Rightarrow> room_status" where
  "bt_room_status rooms =
     foldl (\<lambda>m room. m(room_id room :=
              \<lparr> remaining_capacity = capacity room, subjects = {}, branches = {}, years = {},
                departments = {} \<rparr>))
       (\<lambda>_. \<lparr> remaining_capacity = 0, subjects = {}, branches = {}, years = {},
               departments = {} \<rparr>) rooms"

definition can_place :: "RoomConfig list \<Rightarrow> (string \<Rightarrow> room_status) \<Rightarrow> string \<Rightarrow> Student list \<Rightarrow> bool" where
  "can_place rooms room_status rid group_students =
     (case find (\<lambda>r. room_id r = rid) rooms of
        None \<Rightarrow> False
      | Some room_config \<Rightarrow>
          (let status = room_status rid in
           if int (length group_students) > remaining_capacity status then False
           else if \<not> group_years group_students \<subseteq> allowed_years room_config then False
           else if max_years room_config > 0
                   \<and> int (card (years status \<union> group_years group_students)) > max_years room_config
             then False
           else if max_departments room_config > 0
                   \<and> int (card (departments status \<union> group_departments group_students))
                       > max_departments room_config
             then False
           else if max_subjects room_config > 0
                   \<and> int (card (subjects status \<union> group_subjects group_students))
                       > max_subjects room_config
             then False
           else if max_branches room_config > 0
                   \<and> int (card (branches status \<union> group_branches group_students))
                       > max_branches room_config
             then False
           else True))"

text \<open>
  \<open>dfs\<close>: the groups still to place are the list from \<open>index\<close> on; the third argument is
  what is left of the \<open>for room in rooms\<close> loop for the current group. The state is the
  pair of \<open>room_status\<close> and \<open>room_assignments\<close>, mutated by the placement and restored by
  the undo after a failed recursive call.
\<close>

function dfs ::
  "RoomConfig list \<Rightarrow> Student list list \<Rightarrow> RoomConfig list
    \<Rightarrow> (string \<Rightarrow> room_status) \<times> (string \<times> string list) list
    \<Rightarrow> bool \<times> ((string \<Rightarrow> room_status) \<times> (string \<times> string list) list)" where
  "dfs rooms [] todo st = (True, st)"
| "dfs rooms (grp # rest) [] st = (False, st)"
| "dfs rooms (grp # rest) (room # todo) st =
     (if can_place rooms (fst st) (room_id room) grp then
        (let original_status = fst st (room_id room);
             st' = ((fst st)(room_id room :=
                      \<lparr> remaining_capacity = remaining_capacity original_status - int (length grp),
                        subjects = subjects original_status \<union> group_subjects grp,
                        branches = branches original_status \<union> group_branches grp,
                        years = years original_status \<union> group_years grp,
                        departments = departments original_status \<union> group_departments grp \<rparr>),
                    dict_append (snd st) (room_id room) (map sid grp));
             r = dfs rooms rest rooms st'
         in if fst r then (True, snd r)
            else dfs rooms (grp # rest) todo
                   ((fst (snd r))(room_id room := original_status),
                    dict_set (snd (snd r)) (room_id room)
                      (filter (\<lambda>s. s \<notin> set (map sid grp)) (dict_get (snd (snd r)) (room_id room)))))
      else dfs rooms (grp # rest) todo st)"
  by pat_completeness auto
termination
  by (relation "measures [\<lambda>(rooms, groups, todo, st). length groups,
                          \<lambda>(rooms, groups, todo, st). length todo]") auto

definition backtracking_assign ::
  "(nat \<times> Student list) list \<Rightarrow> RoomConfig list \<Rightarrow> error + (string \<times> string list) list" where
  "backtracking_assign groups rooms =
     (let sorted_groups = sort_key (\<lambda>x. - int (length x)) (map snd groups);
          r = dfs rooms sorted_groups rooms (bt_room_status rooms, [])
      in if fst r then Inr (filter (\<lambda>(rid, students). students \<noteq> []) (snd (snd r)))
         else Inl (ValueError ''No valid room assignment possible with current constraints''))"

text \<open>
  The entry point. \<open>groups\<close> is a dictionary from colours to lists of ids, given by its
  items in order. Building the \<open>Student\<close> objects raises \<open>KeyError\<close> at the first id
  without metadata, or the exception of \<open>int\<close> at the first year it cannot read.
\<close>

fun make_students ::
  "(string option \<Rightarrow> error + int) \<Rightarrow> (string \<rightharpoonup> metadata) \<Rightarrow> string list \<Rightarrow> error + Student list" where
  "make_students to_int student_metadata [] = Inr []"
| "make_students to_int student_metadata (s # ss) =
     (case student_metadata s of
        None \<Rightarrow> Inl (KeyError s)
      | Some md \<Rightarrow>
          (case Student_init to_int s md of
             Inl e \<Rightarrow> Inl e
           | Inr st \<Rightarrow>
               (case make_students to_int student_metadata ss of
                  Inl e \<Rightarrow> Inl e
                | Inr sts \<Rightarrow> Inr (st # sts))))"

fun make_student_groups ::
  "(string option \<Rightarrow> error + int) \<Rightarrow> (string \<rightharpoonup> metadata) \<Rightarrow> (nat \<times> string list) list
    \<Rightarrow> error + (nat \<times> Student list) list" where
  "make_student_groups to_int student_metadata [] = Inr []"
| "make_student_groups to_int student_metadata ((color, student_ids) # rest) =
     (case make_students to_int student_metadata student_ids of
        Inl e \<Rightarrow> Inl e
      | Inr sts \<Rightarrow>
          (case make_student_groups to_int student_metadata rest of
             Inl e \<Rightarrow> Inl e
           | Inr gs \<Rightarrow> Inr ((color, sts) # gs)))"

definition assign_rooms_to_groups ::
  "(string option \<Rightarrow> error + int) \<Rightarrow> (nat \<times> string list) list \<Rightarrow> (string \<rightharpoonup> metadata)
    \<Rightarrow> room_dict list \<Rightarrow> error + (string \<times> string list) list" where
  "assign_rooms_to_groups to_int groups student_metadata rooms_config =
     (let room_objects = map RoomConfig_init rooms_config in
      case make_student_groups to_int student_metadata groups of
        Inl e \<Rightarrow> Inl e
      | Inr student_groups \<Rightarrow>
          (let total_students = (\<Sum>students \<leftarrow> map snd student_groups. int (length students));
               total_capacity = (\<Sum>room \<leftarrow> room_objects. capacity room)
           in if total_students > total_capacity then
                Inl (ValueError (''Not enough room capacity. Need '' @ str_int total_students
                                  @ '' seats, have '' @ str_int total_capacity))
              else
                (case first_fit_decreasing student_groups room_objects of
                   Some ffd_result \<Rightarrow> Inr ffd_result
                 | None \<Rightarrow> backtracking_assign student_groups room_objects)))"

section \<open>Seat layout (seat_layout.py)\<close>

text \<open>
  Grid coordinates, seat numbers and room dimensions are Python integers; \<open>div\<close> and
  \<open>mod\<close> on \<open>int\<close> are Python's \<open>//\<close> and \<open>%\<close> for a non-zero divisor. The two nested
  loops over \<open>dx\<close> and \<open>dy\<close> are a list comprehension in the same order.
\<close>

definition get_adjacent_positions :: "int \<Rightarrow> int \<Rightarrow> int \<Rightarrow> int \<Rightarrow> (int \<times> int) list" where
  "get_adjacent_positions x y cols rows =
     [(x + dx, y + dy). dx \<leftarrow> [-1, 0, 1], dy \<leftarrow> [-1, 0, 1], \<not> (dx = 0 \<and> dy = 0),
        0 \<le> x + dx \<and> x + dx < cols \<and> 0 \<le> y + dy \<and> y + dy < rows]"

text \<open>
  The friend graph is a dictionary from a student id to the set of related ids, kept
  as an association list; \<open>assigned_positions\<close> is a dictionary from cells to student ids.
\<close>

definition is_adjacent_to_friend ::
  "int \<Rightarrow> int \<Rightarrow> string \<Rightarrow> (int \<times> int \<rightharpoonup> string) \<Rightarrow> (string \<times> string set) list
    \<Rightarrow> int \<Rightarrow> int \<Rightarrow> bool" where
  "is_adjacent_to_friend x y student_id assigned_positions friend_graph cols rows =
     (case map_of friend_graph student_id of
        None \<Rightarrow> False
      | Some friends \<Rightarrow>
          list_ex (\<lambda>adj. case assigned_positions adj of
                            None \<Rightarrow> False
                          | Some adjacent_student \<Rightarrow> adjacent_student \<in> friends)
            (get_adjacent_positions x y cols rows))"

definition find_non_adjacent_position ::
  "string \<Rightarrow> (int \<times> int \<rightharpoonup> string) \<Rightarrow> (string \<times> string set) list \<Rightarrow> int \<Rightarrow> int
    \<Rightarrow> (int \<times> int \<times> int) option" where
  "find_non_adjacent_position student_id assigned_positions friend_graph cols rows =
     (let total_seats = cols * rows in
      case find (\<lambda>idx. assigned_positions (idx mod cols, idx div cols) = None
                        \<and> \<not> is_adjacent_to_friend (idx mod cols) (idx div cols) student_id
                              assigned_positions friend_graph cols rows)
             (py_range total_seats) of
        Some idx \<Rightarrow> Some (idx mod cols, idx div cols, idx + 1)
      | None \<Rightarrow>
          (case find (\<lambda>idx. assigned_positions (idx mod cols, idx div cols) = None)
                  (py_range total_seats) of
             Some idx \<Rightarrow> Some (idx mod cols, idx div cols, idx + 1)
           | None \<Rightarrow> None))"

record seat =
  seat_x :: int
  seat_y :: int
  seat_student_id :: string
  seat_no :: int
  seat_Name :: string
  seat_Department :: string
  seat_Branch :: string
  seat_Year :: string
  seat_Subject :: string
  seat_ExamTime :: string

record adjacency_violation =
  violation_room :: string
  violation_student_id :: string
  violation_position :: "int \<times> int"

text \<open>The seat dictionary; \<open>student_info\<close> is \<open>metadata.get(student_id, {})\<close>.\<close>

definition info_get :: "metadata option \<Rightarrow> (metadata \<Rightarrow> string option) \<Rightarrow> string" where
  "info_get student_info field =
     (case student_info of None \<Rightarrow> ''Unknown'' | Some info \<Rightarrow> get_default (field info) ''Unknown'')"

definition make_seat :: "int \<Rightarrow> int \<Rightarrow> string \<Rightarrow> int \<Rightarrow> metadata option \<Rightarrow> seat" where
  "make_seat x y student_id seat_number student_info =
     \<lparr> seat_x = x, seat_y = y, seat_student_id = student_id, seat_no = seat_number,
       seat_Name = info_get student_info md_Name,
       seat_Department = info_get student_info md_Department,
       seat_Branch = info_get student_info md_Branch,
       seat_Year = info_get student_info md_Year,
       seat_Subject = info_get student_info md_Subject,
       seat_ExamTime = info_get student_info md_ExamTime \<rparr>"

text \<open>
  \<open>interleave_groups\<close>: one round of the \<open>while any(queues)\<close> loop pops the head of every
  non-empty queue, in order.
\<close>

function round_robin :: "'a list list \<Rightarrow> 'a list" where
  "round_robin queues =
     (if \<exists>q \<in> set queues. q \<noteq> []
      then concat (map (take 1) queues) @ round_robin (map (drop 1) queues)
      else [])"
  by pat_completeness auto
termination
proof (relation "measure (\<lambda>queues. sum_list (map length queues))")
  show "wf (measure (\<lambda>queues. sum_list (map length queues)))"
    by simp
next
  fix queues :: "'a list list"
  assume "\<exists>q \<in> set queues. q \<noteq> []"
  then show "(map (drop 1) queues, queues) \<in> measure (\<lambda>queues. sum_list (map length queues))"
  proof (induction queues)
    case Nil
    then show ?case by simp
  next
    case (Cons q qs)
    have le: "sum_list (map length (map (drop 1) qs)) \<le> sum_list (map length qs)"
      by (induction qs) auto
    show ?case
    proof (cases "q = []")
      case True
      with Cons show ?thesis by auto
    next
      case False
      then have "length (drop 1 q) < length q" by (cases q) auto
      with le show ?thesis by simp
    qed
  qed
qed

declare round_robin.simps [simp del]

definition interleave_groups :: "'a list list \<Rightarrow> 'a list" where
  "interleave_groups groups =
     (let non_empty_groups = filter (\<lambda>grp. grp \<noteq> []) groups in
      if non_empty_groups = [] then [] else round_robin non_empty_groups)"

text \<open>The \<open>year_groups\<close> dictionary of a room and the queue made from it.\<close>

definition year_of :: "(string \<rightharpoonup> metadata) \<Rightarrow> string \<Rightarrow> string" where
  "year_of metadata student_id = info_get (metadata student_id) md_Year"

definition year_groups :: "(string \<rightharpoonup> metadata) \<Rightarrow> string list \<Rightarrow> (string \<times> string list) list" where
  "year_groups metadata students =
     foldl (\<lambda>d student_id. dict_append d (year_of metadata student_id) [student_id]) [] students"

definition room_queue :: "(string \<rightharpoonup> metadata) \<Rightarrow> string list \<Rightarrow> string list" where
  "room_queue metadata students = interleave_groups (map snd (year_groups metadata students))"

text \<open>
  The layout of a room: \<open>layout_columns\<close>, else \<open>columns\<close>, else 6, and likewise for the
  rows with 5; a room without an entry in \<open>room_config\<close> is 6 by 5.
\<close>

definition room_layout :: "(string \<rightharpoonup> room_dict) \<Rightarrow> string \<Rightarrow> int \<times> int" where
  "room_layout room_config room =
     (case room_config room of
        Some layout_info \<Rightarrow>
          (get_default (cfg_layout_columns layout_info) (get_default (cfg_columns layout_info) 6),
           get_default (cfg_layout_rows layout_info) (get_default (cfg_rows layout_info) 5))
      | None \<Rightarrow> (6, 5))"

text \<open>
  The loop over the queue in \<open>assign_seats_with_separation\<close>. The state is the list of
  seats, \<open>assigned_positions\<close> and \<open>adjacency_violations\<close>; a student for whom
  \<open>find_non_adjacent_position\<close> returns \<open>None\<close> is skipped (\<open>continue\<close>).
\<close>

fun place_queue ::
  "string \<Rightarrow> (string \<rightharpoonup> metadata) \<Rightarrow> (string \<times> string set) list \<Rightarrow> int \<Rightarrow> int \<Rightarrow> string list
    \<Rightarrow> seat list \<times> (int \<times> int \<rightharpoonup> string) \<times> adjacency_violation list
    \<Rightarrow> seat list \<times> (int \<times> int \<rightharpoonup> string) \<times> adjacency_violation list" where
  "place_queue room metadata friend_graph cols rows [] st = st"
| "place_queue room metadata friend_graph cols rows (student_id # queue) (seats, assigned_positions, adjacency_violations) =
     (case find_non_adjacent_position student_id assigned_positions friend_graph cols rows of
        None \<Rightarrow>
          place_queue room metadata friend_graph cols rows queue
            (seats, assigned_positions, adjacency_violations)
      | Some (x, y, seat_number) \<Rightarrow>
          (let assigned_positions' = assigned_positions((x, y) \<mapsto> student_id);
               adjacency_violations' =
                 (if is_adjacent_to_friend x y student_id assigned_positions' friend_graph cols rows
                  then adjacency_violations
                         @ [\<lparr> violation_room = room, violation_student_id = student_id,
                              violation_position = (x, y) \<rparr>]
                  else adjacency_violations)
           in place_queue room metadata friend_graph cols rows queue
                (seats @ [make_seat x y student_id seat_number (metadata student_id)],
                 assigned_positions', adjacency_violations')))"

text \<open>
  The loop over the rooms; \<open>adjacency_violations\<close> is one list for the whole call. The
  function returns \<open>seating\<close> only: the list of violations is a local variable.
\<close>

fun separation_rooms ::
  "(string \<rightharpoonup> metadata) \<Rightarrow> (string \<rightharpoonup> room_dict) \<Rightarrow> (string \<times> string set) list
    \<Rightarrow> (string \<times> string list) list
    \<Rightarrow> (string \<times> seat list) list \<times> adjacency_violation list
    \<Rightarrow> (string \<times> seat list) list \<times> adjacency_violation list" where
  "separation_rooms metadata room_config friend_graph [] st = st"
| "separation_rooms metadata room_config friend_graph ((room, students) # rest) (seating, adjacency_violations) =
     (if students = [] then
        separation_rooms metadata room_config friend_graph rest (seating, adjacency_violations)
      else
        (let queue = room_queue metadata students;
             (cols, rows) = room_layout room_config room;
             (seats, assigned_positions, adjacency_violations') =
               place_queue room metadata friend_graph cols rows queue
                 ([], Map.empty, adjacency_violations)
         in separation_rooms metadata room_config friend_graph rest
              (dict_set seating room seats, adjacency_violations')))"

text \<open>
  \<open>db_friend_graph\<close> is what \<open>get_friend_graph_from_db()\<close> returns, read when no friend
  graph is passed.
\<close>

definition assign_seats_with_separation ::
  "(string \<times> string set) list \<Rightarrow> (string \<times> string list) list \<Rightarrow> (string \<rightharpoonup> metadata)
    \<Rightarrow> (string \<rightharpoonup> room_dict) \<Rightarrow> (string \<times> string set) list option
    \<Rightarrow> (string \<times> seat list) list" where
  "assign_seats_with_separation db_friend_graph room_assignment metadata room_config friend_graph =
     (let friend_graph' = (case friend_graph of None \<Rightarrow> db_friend_graph | Some g \<Rightarrow> g)
      in fst (separation_rooms metadata room_config friend_graph' room_assignment ([], [])))"

text \<open>\<open>range(start, stop, 2)\<close>.\<close>

definition py_range2 :: "int \<Rightarrow> int \<Rightarrow> int list" where
  "py_range2 start stop = map (\<lambda>k. start + 2 * int k) [0..<nat ((stop - start + 1) div 2)]"

text \<open>
  One pass of the checkerboard fill over its cells in loop order. With \<open>check\<close> set, a
  cell already in \<open>positions\<close> is not appended (the second pass). After each append the
  function returns at once when \<open>num_students\<close> positions are there: the flag of the
  result says whether it did.
\<close>

fun fill_positions ::
  "bool \<Rightarrow> nat \<Rightarrow> (int \<times> int \<times> int) list \<Rightarrow> (int \<times> int \<times> int) list
    \<Rightarrow> bool \<times> (int \<times> int \<times> int) list" where
  "fill_positions check num_students [] positions = (False, positions)"
| "fill_positions check num_students (pos # cells) positions =
     (if check \<and> pos \<in> set positions then fill_positions check num_students cells positions
      else if length (positions @ [pos]) \<ge> num_students then (True, positions @ [pos])
      else fill_positions check num_students cells (positions @ [pos]))"

definition first_pass_cells :: "int \<Rightarrow> int \<Rightarrow> (int \<times> int \<times> int) list" where
  "first_pass_cells cols rows =
     [(col, row, row * cols + col + 1). row \<leftarrow> py_range rows, col \<leftarrow> py_range2 (row mod 2) cols]"

definition second_pass_cells :: "int \<Rightarrow> int \<Rightarrow> (int \<times> int \<times> int) list" where
  "second_pass_cells cols rows =
     [(col, row, row * cols + col + 1). row \<leftarrow> py_range rows, col \<leftarrow> py_range2 (1 - row mod 2) cols]"

text \<open>
  \<open>num_students\<close> is a length. \<open>total_seats // num_students\<close> raises for no students in
  a room with seats.
\<close>

definition get_spread_positions :: "nat \<Rightarrow> int \<Rightarrow> int \<Rightarrow> error + (int \<times> int \<times> int) list" where
  "get_spread_positions num_students cols rows =
     (let total_seats = cols * rows in
      if int num_students \<ge> total_seats then
        Inr [(i mod cols, i div cols, i + 1). i \<leftarrow> py_range total_seats]
      else if num_students = 0 then Inl ZeroDivisionError
      else
        (let spacing = max 1 (total_seats div int num_students) in
         if spacing \<ge> 2 then
           (let (returned, positions) = fill_positions False num_students (first_pass_cells cols rows) [] in
            if returned then Inr positions
            else
              (let (returned', positions') =
                     fill_positions True num_students (second_pass_cells cols rows) positions in
               if returned' then Inr positions' else Inr (take num_students positions')))
         else
           Inr (take num_students
                  [(i mod cols, i div cols, i + 1). i \<leftarrow> py_range (min (int num_students) total_seats)])))"

text \<open>The loop over the rooms of the spread path.\<close>

fun spread_rooms ::
  "(string \<rightharpoonup> metadata) \<Rightarrow> (string \<rightharpoonup> room_dict) \<Rightarrow> (string \<times> string list) list
    \<Rightarrow> (string \<times> seat list) list \<Rightarrow> error + (string \<times> seat list) list" where
  "spread_rooms metadata room_config [] seating = Inr seating"
| "spread_rooms metadata room_config ((room, students) # rest) seating =
     (if students = [] then spread_rooms metadata room_config rest seating
      else
        (let queue = room_queue metadata students;
             (cols, rows) = room_layout room_config room
         in case get_spread_positions (length queue) cols rows of
              Inl e \<Rightarrow> Inl e
            | Inr positions \<Rightarrow>
                spread_rooms metadata room_config rest
                  (dict_set seating room
                     (map (\<lambda>(student_id, (x, y, seat_number)).
                             make_seat x y student_id seat_number (metadata student_id))
                        (zip queue positions)))))"

text \<open>
  \<open>if friend_graph:\<close> holds for a dictionary that is not empty; \<open>None\<close> and the empty
  dictionary take the spread path.
\<close>

definition assign_seats_in_room ::
  "(string \<times> string set) list \<Rightarrow> (string \<times> string list) list \<Rightarrow> (string \<rightharpoonup> metadata)
    \<Rightarrow> (string \<rightharpoonup> room_dict) \<Rightarrow> (string \<times> string set) list option
    \<Rightarrow> error + (string \<times> seat list) list" where
  "assign_seats_in_room db_friend_graph room_assignment metadata room_config friend_graph =
     (if friend_graph \<noteq> None \<and> friend_graph \<noteq> Some [] then
        Inr (assign_seats_with_separation db_friend_graph room_assignment metadata room_config friend_graph)
      else spread_rooms metadata room_config room_assignment [])"

text \<open>
  The acceptance test that both passes apply to a room and a group, as one predicate:
  the group fits, its years are allowed, and each ceiling that is positive bounds the
  number of distinct values the room would hold.
\<close>

definition room_accepts :: "RoomConfig \<Rightarrow> 'a room_status_scheme \<Rightarrow> Student list \<Rightarrow> bool" where
  "room_accepts room status grp \<longleftrightarrow>
     int (length grp) \<le> remaining_capacity status
     \<and> group_years grp \<subseteq> allowed_years room
     \<and> (max_years room > 0 \<longrightarrow> int (card (years status \<union> group_years grp)) \<le> max_years room)
     \<and> (max_departments room > 0 \<longrightarrow>
          int (card (departments status \<union> group_departments grp)) \<le> max_departments room)
     \<and> (max_subjects room > 0 \<longrightarrow>
          int (card (subjects status \<union> group_subjects grp)) \<le> max_subjects room)
     \<and> (max_branches room > 0 \<longrightarrow>
          int (card (branches status \<union> group_branches grp)) \<le> max_branches room)"

definition ffd_update :: "ffd_status \<Rightarrow> Student list \<Rightarrow> ffd_status" where
  "ffd_update status grp =
     status\<lparr> remaining_capacity := remaining_capacity status - int (length grp),
             subjects := subjects status \<union> group_subjects grp,
             branches := branches status \<union> group_branches grp,
             years := years status \<union> group_years grp,
             departments := departments status \<union> group_departments grp,
             status_students := status_students status @ map sid grp \<rparr>"

text \<open>Concrete rooms and students for the evaluated instances below.\<close>

definition demo_room_dict :: "string \<Rightarrow> int \<Rightarrow> room_dict" where
  "demo_room_dict name cap =
     \<lparr> cfg_room_name = name, cfg_capacity = cap, cfg_max_subjects = None, cfg_max_branches = None,
       cfg_max_departments = None, cfg_max_years = None, cfg_allowed_years = None,
       cfg_layout_columns = None, cfg_columns = None, cfg_layout_rows = None, cfg_rows = None \<rparr>"

definition demo_student :: "string \<Rightarrow> int \<Rightarrow> string \<Rightarrow> Student" where
  "demo_student i y s =
     \<lparr> sid = i, year = y, subject = Some s, department = Some s, branch = s, batch = s \<rparr>"


section \<open>Predicates used in the statements\<close>

text \<open>
  The invariant of a \<open>networkx.Graph\<close>: the nodes are the keys of a dictionary, every edge
  is stored on both sides, and its end points are nodes.
\<close>

definition wf_graph :: "'a graph \<Rightarrow> bool" where
  "wf_graph g \<longleftrightarrow>
     distinct (nodes g) \<and> (\<forall>u v. has_edge g u v \<longrightarrow> has_edge g v u \<and> u \<in> set (nodes g))"

text \<open>\<open>colors[n]\<close>, or \<open>None\<close> for a node without a colour.\<close>

definition color_of :: "('a \<times> nat) list \<Rightarrow> 'a \<Rightarrow> nat option" where
  "color_of colors n = map_of colors n"

text \<open>No two distinct coloured nodes that are neighbours share a colour.\<close>

definition proper_on :: "('a \<Rightarrow> 'a list) \<Rightarrow> ('a \<times> nat) list \<Rightarrow> bool" where
  "proper_on nbrs colors \<longleftrightarrow>
     (\<forall>u cu v cv. (u, cu) \<in> set colors \<and> (v, cv) \<in> set colors \<and> u \<noteq> v \<and> v \<in> set (nbrs u)
        \<longrightarrow> cu \<noteq> cv)"

text \<open>The complete graph on three nodes.\<close>

definition K3 :: "string graph" where
  "K3 = add_edge (add_edge (add_edge empty_graph ''a'' ''b'' None) ''b'' ''c'' None) ''a'' ''c'' None"

text \<open>The pairs that the two nested loops over \<open>i < j\<close> visit.\<close>

fun later_pairs :: "'a list \<Rightarrow> ('a \<times> 'a) set" where
  "later_pairs [] = {}"
| "later_pairs (x # xs) = {(x, y) | y. y \<in> set xs} \<union> later_pairs xs"

text \<open>Two roster rows with identical exam date and exam time.\<close>

definition same_slot :: "row \<Rightarrow> row \<Rightarrow> bool" where
  "same_slot s1 s2 \<longleftrightarrow> row_ExamDate s1 = row_ExamDate s2 \<and> row_ExamTime s1 = row_ExamTime s2"

text \<open>The graph that \<open>get_colored_groups\<close> colours.\<close>

definition conflict_graph_of ::
  "(string \<times> string) list \<Rightarrow> row list \<Rightarrow> (string \<times> string) list option \<Rightarrow> bool \<Rightarrow> bool \<Rightarrow> string graph" where
  "conflict_graph_of db df fp ef es =
     (if ef \<or> es then build_enhanced_conflict_graph db df (if ef then fp else Some []) es
      else basic_conflict_graph df)"

text \<open>The grouping loop at the end of \<open>get_colored_groups\<close>.\<close>

definition groups_of_colors :: "('a \<times> nat) list \<Rightarrow> (nat \<times> 'a list) list" where
  "groups_of_colors cm = foldl (\<lambda>groups (student, color). dict_append groups color [student]) [] cm"

text \<open>A roster row for the evaluated instances.\<close>

definition demo_row :: "string \<Rightarrow> string \<Rightarrow> string \<Rightarrow> row" where
  "demo_row i d t =
     \<lparr> row_StudentID = i, row_ExamDate = d, row_ExamTime = t, row_Batch = ''B1'', row_Year = ''1'',
       row_Department = ''CS'' \<rparr>"

text \<open>The cell of a row-major index.\<close>

definition cell_of :: "int \<Rightarrow> int \<Rightarrow> int \<times> int" where
  "cell_of cols idx = (idx mod cols, idx div cols)"

text \<open>
  \<open>assigned_positions\<close> after seating \<open>seats\<close> in order, and the facts that hold of the
  seats of one room while they are placed: every seat number is one more than an index
  of the grid, the cell is the cell of that index, and no seat number occurs twice.
\<close>

definition assigned_after :: "seat list \<Rightarrow> (int \<times> int \<rightharpoonup> string)" where
  "assigned_after seats = foldl (\<lambda>m s. m((seat_x s, seat_y s) \<mapsto> seat_student_id s)) Map.empty seats"

definition seats_inv :: "int \<Rightarrow> int \<Rightarrow> seat list \<Rightarrow> bool" where
  "seats_inv cols rows seats \<longleftrightarrow>
     (\<forall>s \<in> set seats. 0 \<le> seat_no s - 1 \<and> seat_no s - 1 < cols * rows
         \<and> (seat_x s, seat_y s) = cell_of cols (seat_no s - 1))
     \<and> distinct (map seat_no seats)"

text \<open>
  A seat next to an already seated friend is taken only when every cell that was free
  at that moment was next to an already seated friend.
\<close>

definition adjacent_only_if_forced ::
  "(string \<times> string set) list \<Rightarrow> int \<Rightarrow> int \<Rightarrow> seat list \<Rightarrow> bool" where
  "adjacent_only_if_forced fg cols rows seats \<longleftrightarrow>
     (\<forall>k < length seats.
        is_adjacent_to_friend (seat_x (seats ! k)) (seat_y (seats ! k)) (seat_student_id (seats ! k))
          (assigned_after (take k seats)) fg cols rows
        \<longrightarrow> (\<forall>j. 0 \<le> j \<and> j < cols * rows \<and> assigned_after (take k seats) (cell_of cols j) = None
               \<longrightarrow> is_adjacent_to_friend (j mod cols) (j div cols) (seat_student_id (seats ! k))
                     (assigned_after (take k seats)) fg cols rows))"

text \<open>The seats that the relationship-aware loop gives one room.\<close>

definition separation_seats ::
  "(string \<rightharpoonup> metadata) \<Rightarrow> (string \<rightharpoonup> room_dict) \<Rightarrow> (string \<times> string set) list
    \<Rightarrow> string \<Rightarrow> string list \<Rightarrow> seat list" where
  "separation_seats md rc fg room students =
     fst (place_queue room md fg (fst (room_layout rc room)) (snd (room_layout rc room))
            (room_queue md students) ([], Map.empty, []))"

text \<open>A position triple inside the grid whose seat number is the row-major index plus one.\<close>

definition valid_pos :: "int \<Rightarrow> int \<Rightarrow> int \<times> int \<times> int \<Rightarrow> bool" where
  "valid_pos cols rows p \<longleftrightarrow>
     (case p of (x, y, n) \<Rightarrow> 0 \<le> x \<and> x < cols \<and> 0 \<le> y \<and> y < rows \<and> n = y * cols + x + 1)"

text \<open>The cells of one pass: row by row, the columns from \<open>start row\<close> in steps of two.\<close>

definition pass_cells :: "(int \<Rightarrow> int) \<Rightarrow> int \<Rightarrow> int \<Rightarrow> (int \<times> int \<times> int) list" where
  "pass_cells start cols rows =
     concat (map (\<lambda>row. map (\<lambda>col. (col, row, row * cols + col + 1)) (py_range2 (start row) cols))
               (py_range rows))"

definition row_major_cells :: "int \<Rightarrow> int \<Rightarrow> (int \<times> int \<times> int) list" where
  "row_major_cells cols n = map (\<lambda>i. (i mod cols, i div cols, i + 1)) (py_range n)"

text \<open>The seats that the spread path gives one room.\<close>

definition spread_seats ::
  "(string \<rightharpoonup> metadata) \<Rightarrow> (string \<rightharpoonup> room_dict) \<Rightarrow> string \<Rightarrow> string list \<Rightarrow> seat list" where
  "spread_seats md rc room students =
     (case get_spread_positions (length (room_queue md students))
             (fst (room_layout rc room)) (snd (room_layout rc room)) of
        Inl e \<Rightarrow> []
      | Inr positions \<Rightarrow>
          map (\<lambda>(student_id, (x, y, seat_number)). make_seat x y student_id seat_number (md student_id))
            (zip (room_queue md students) positions))"

text \<open>
  Seats at pairwise different cells with pairwise different numbers, every one inside
  the grid and numbered by its row-major index plus one.
\<close>

definition well_seated :: "int \<Rightarrow> int \<Rightarrow> seat list \<Rightarrow> bool" where
  "well_seated cols rows seats \<longleftrightarrow>
     distinct (map (\<lambda>s. (seat_x s, seat_y s)) seats)
     \<and> distinct (map seat_no seats)
     \<and> (\<forall>s \<in> set seats. 0 \<le> seat_x s \<and> seat_x s < cols \<and> 0 \<le> seat_y s \<and> seat_y s < rows
            \<and> seat_no s = seat_y s * cols + seat_x s + 1)"

text \<open>The seats of one room, whichever path \<open>assign_seats_in_room\<close> takes.\<close>

definition room_seats ::
  "(string \<rightharpoonup> metadata) \<Rightarrow> (string \<rightharpoonup> room_dict) \<Rightarrow> (string \<times> string set) list option
    \<Rightarrow> string \<Rightarrow> string list \<Rightarrow> seat list" where
  "room_seats md rc friend_graph room students =
     (if students = [] then []
      else case friend_graph of
             None \<Rightarrow> spread_seats md rc room students
           | Some g \<Rightarrow> if g = [] then spread_seats md rc room students
                       else separation_seats md rc g room students)"

text \<open>A layout entry of \<open>room_config\<close> with the given columns and rows.\<close>

definition demo_layout :: "int \<Rightarrow> int \<Rightarrow> room_dict" where
  "demo_layout cols rows = (demo_room_dict ''R'' 0)\<lparr> cfg_columns := Some cols, cfg_rows := Some rows \<rparr>"

text \<open>
  The relationship set of a student (empty without an entry), a relationship map
  that lists every pair on both sides, and two students one of whom lists the other.
\<close>

definition friends_of :: "(string \<times> string set) list \<Rightarrow> string \<Rightarrow> string set" where
  "friends_of friend_graph s = (case map_of friend_graph s of None \<Rightarrow> {} | Some friends \<Rightarrow> friends)"

definition symmetric_friend_graph :: "(string \<times> string set) list \<Rightarrow> bool" where
  "symmetric_friend_graph friend_graph \<longleftrightarrow>
     (\<forall>s t. t \<in> friends_of friend_graph s \<longrightarrow> s \<in> friends_of friend_graph t)"

definition related :: "(string \<times> string set) list \<Rightarrow> string \<Rightarrow> string \<Rightarrow> bool" where
  "related friend_graph s t \<longleftrightarrow> t \<in> friends_of friend_graph s \<or> s \<in> friends_of friend_graph t"

text \<open>
  The cell \<open>c\<close> has, in its 8-neighbourhood inside the grid, the seat of one of the
  students \<open>seated\<close> who is related to \<open>s\<close>.
\<close>

definition next_to_related ::
  "(string \<times> string set) list \<Rightarrow> int \<Rightarrow> int \<Rightarrow> seat list \<Rightarrow> string \<Rightarrow> int \<times> int \<Rightarrow> bool" where
  "next_to_related friend_graph cols rows seated s c \<longleftrightarrow>
     (\<exists>t \<in> set seated. (seat_x t, seat_y t) \<in> set (get_adjacent_positions (fst c) (snd c) cols rows)
        \<and> related friend_graph s (seat_student_id t))"

text \<open>
  The seats of a room in the order they were taken: whoever sits next to an earlier
  seated related student had, at that moment, no free cell of the grid that was not
  next to an earlier seated related student.
\<close>

definition related_adjacent_only_if_forced ::
  "(string \<times> string set) list \<Rightarrow> int \<Rightarrow> int \<Rightarrow> seat list \<Rightarrow> bool" where
  "related_adjacent_only_if_forced friend_graph cols rows seats \<longleftrightarrow>
     (\<forall>k < length seats.
        next_to_related friend_graph cols rows (take k seats) (seat_student_id (seats ! k))
          (seat_x (seats ! k), seat_y (seats ! k))
        \<longrightarrow> (\<forall>j. 0 \<le> j \<and> j < cols * rows
                  \<and> cell_of cols j \<notin> (\<lambda>t. (seat_x t, seat_y t)) ` set (take k seats)
               \<longrightarrow> next_to_related friend_graph cols rows (take k seats) (seat_student_id (seats ! k))
                     (cell_of cols j)))"

text \<open>
  The bookkeeping of a room after a group is placed in it, a sequence of placements
  (the room chosen for each group, in the order of the groups) that passes the
  acceptance test at every step, and the states it leads to.
\<close>

definition bt_update :: "room_status \<Rightarrow> Student list \<Rightarrow> room_status" where
  "bt_update status grp =
     \<lparr> remaining_capacity = remaining_capacity status - int (length grp),
       subjects = subjects status \<union> group_subjects grp,
       branches = branches status \<union> group_branches grp,
       years = years status \<union> group_years grp,
       departments = departments status \<union> group_departments grp \<rparr>"

fun feasible :: "RoomConfig list \<Rightarrow> Student list list \<Rightarrow> (string \<Rightarrow> room_status) \<Rightarrow> bool" where
  "feasible [] [] st = True"
| "feasible (r # rs) (g # gs) st =
     (room_accepts r (st (room_id r)) g
      \<and> feasible rs gs (st(room_id r := bt_update (st (room_id r)) g)))"
| "feasible _ _ st = False"

fun run_status :: "RoomConfig list \<Rightarrow> Student list list \<Rightarrow> (string \<Rightarrow> room_status) \<Rightarrow> (string \<Rightarrow> room_status)" where
  "run_status (r # rs) (g # gs) st = run_status rs gs (st(room_id r := bt_update (st (room_id r)) g))"
| "run_status _ _ st = st"

text \<open>The students that a sequence of placements puts into the room with a given id.\<close>

definition load_of :: "RoomConfig list \<Rightarrow> Student list list \<Rightarrow> string \<Rightarrow> Student list" where
  "load_of rs gs rid = concat (map snd (filter (\<lambda>p. room_id (fst p) = rid) (zip rs gs)))"

text \<open>The ids that \<open>room_assignments\<close> holds.\<close>

definition assigned_ids :: "(string \<times> string list) list \<Rightarrow> string set" where
  "assigned_ids asg = (\<Union>l \<in> set (map snd asg). set l)"

text \<open>
  The groups still to place have ids that are disjoint from each other and from the
  ids in \<open>S\<close>.
\<close>

fun disjoint_ids :: "string set \<Rightarrow> Student list list \<Rightarrow> bool" where
  "disjoint_ids S [] = True"
| "disjoint_ids S (g # gs) = (set (map sid g) \<inter> S = {} \<and> disjoint_ids (S \<union> set (map sid g)) gs)"

text \<open>What \<open>dfs\<close> returns, for a start state \<open>s\<close> and a result \<open>r\<close>.\<close>

definition dfs_post ::
  "RoomConfig list \<Rightarrow> Student list list \<Rightarrow> RoomConfig list
    \<Rightarrow> (string \<Rightarrow> room_status) \<times> (string \<times> string list) list
    \<Rightarrow> bool \<times> ((string \<Rightarrow> room_status) \<times> (string \<times> string list) list) \<Rightarrow> bool" where
  "dfs_post rooms gs todo s r \<longleftrightarrow>
     distinct (map fst (snd (snd r)))
     \<and> (if fst r then
          (\<exists>rs. set rs \<subseteq> set rooms \<and> feasible rs gs (fst s)
             \<and> fst (snd r) = run_status rs gs (fst s)
             \<and> (\<forall>rid. dict_get (snd (snd r)) rid = dict_get (snd s) rid @ map sid (load_of rs gs rid))
             \<and> mset (concat (map snd (snd (snd r))))
                 = mset (concat (map snd (snd s))) + mset (map sid (concat gs)))
        else
          fst (snd r) = fst s
          \<and> (\<forall>rid. dict_get (snd (snd r)) rid = dict_get (snd s) rid)
          \<and> mset (concat (map snd (snd (snd r)))) = mset (concat (map snd (snd s)))
          \<and> \<not> (\<exists>r' rs. r' \<in> set todo \<and> set rs \<subseteq> set rooms \<and> feasible (r' # rs) gs (fst s)))"

text \<open>A ceiling bounds the number of distinct values only when it is positive.\<close>

definition ceiling_ok :: "int \<Rightarrow> 'a set \<Rightarrow> bool" where
  "ceiling_ok m S \<longleftrightarrow> (m > 0 \<longrightarrow> int (card S) \<le> m)"

text \<open>
  A room holds the students \<open>L\<close> within its capacity, its allowed years and its
  ceilings.
\<close>

definition room_fits :: "RoomConfig \<Rightarrow> Student list \<Rightarrow> bool" where
  "room_fits room L \<longleftrightarrow>
     int (length L) \<le> capacity room
     \<and> group_years L \<subseteq> allowed_years room
     \<and> ceiling_ok (max_years room) (group_years L)
     \<and> ceiling_ok (max_departments room) (group_departments L)
     \<and> ceiling_ok (max_subjects room) (group_subjects L)
     \<and> ceiling_ok (max_branches room) (group_branches L)"

text \<open>
  An assignment of every group to one room of the catalog (the room at the same
  position of \<open>rs\<close>) under which every room that is used holds its students within
  all constraints.
\<close>

definition valid_assignment :: "RoomConfig list \<Rightarrow> Student list list \<Rightarrow> RoomConfig list \<Rightarrow> bool" where
  "valid_assignment rooms gs rs \<longleftrightarrow>
     length rs = length gs \<and> set rs \<subseteq> set rooms
     \<and> (\<forall>room \<in> set rs. room_fits room (load_of rs gs (room_id room)))"

text \<open>The bookkeeping of a room that holds the students \<open>L\<close>.\<close>

definition status_of :: "RoomConfig \<Rightarrow> Student list \<Rightarrow> room_status" where
  "status_of room L =
     \<lparr> remaining_capacity = capacity room - int (length L), subjects = group_subjects L,
       branches = group_branches L, years = group_years L, departments = group_departments L \<rparr>"

text \<open>The same for a room that already holds \<open>P\<close> and gets \<open>L\<close> on top.\<close>

definition fits_with :: "RoomConfig \<Rightarrow> Student list \<Rightarrow> Student list \<Rightarrow> bool" where
  "fits_with room P L \<longleftrightarrow>
     int (length (P @ L)) \<le> capacity room
     \<and> group_years L \<subseteq> allowed_years room
     \<and> ceiling_ok (max_years room) (group_years (P @ L))
     \<and> ceiling_ok (max_departments room) (group_departments (P @ L))
     \<and> ceiling_ok (max_subjects room) (group_subjects (P @ L))
     \<and> ceiling_ok (max_branches room) (group_branches (P @ L))"

text \<open>The bookkeeping of the first-fit pass without its list of ids.\<close>

definition base_status :: "ffd_status \<Rightarrow> room_status" where
  "base_status s =
     \<lparr> remaining_capacity = remaining_capacity s, subjects = subjects s, branches = branches s,
       years = years s, departments = departments s \<rparr>"

text \<open>
  What a returned mapping must satisfy for the groups \<open>gs\<close> and the catalog \<open>rooms\<close>: its
  keys are distinct, its lists hold the ids of the groups' students, each as often as the
  groups do, and every key is the id of a room of the catalog that holds the students
  listed for it within its capacity, its allowed years and its ceilings. No key has an
  empty list.
\<close>

definition sound_result :: "RoomConfig list \<Rightarrow> Student list list \<Rightarrow> (string \<times> string list) list \<Rightarrow> bool" where
  "sound_result rooms gs res \<longleftrightarrow>
     distinct (map fst res)
     \<and> mset (concat (map snd res)) = mset (map sid (concat gs))
     \<and> (\<forall>(rid, ids) \<in> set res. ids \<noteq> []
          \<and> (\<exists>room \<in> set rooms. room_id room = rid
               \<and> (\<exists>L. set L \<subseteq> set (concat gs) \<and> map sid L = ids \<and> room_fits room L)))"

text \<open>
  The \<open>Student\<close> objects that the entry point builds: each is the object of its id and of
  the metadata stored for that id.
\<close>

definition built_from :: "(string option \<Rightarrow> error + int) \<Rightarrow> (string \<rightharpoonup> metadata) \<Rightarrow> Student \<Rightarrow> bool" where
  "built_from to_int student_metadata s \<longleftrightarrow>
     (case student_metadata (sid s) of
        None \<Rightarrow> False
      | Some md \<Rightarrow> Student_init to_int (sid s) md = Inr s)"

text \<open>
  A returned mapping that is a full and valid layout for the input: its keys are
  distinct, its lists hold the ids of the input groups, each as often as the groups do,
  and every key is the name of a room of the catalog that holds the \<open>Student\<close> objects
  of the ids listed for it within its capacity, allowed years and ceilings.
\<close>

definition full_valid_layout ::
  "(string option \<Rightarrow> error + int) \<Rightarrow> (nat \<times> string list) list \<Rightarrow> (string \<rightharpoonup> metadata)
    \<Rightarrow> room_dict list \<Rightarrow> (string \<times> string list) list \<Rightarrow> bool" where
  "full_valid_layout to_int groups student_metadata rooms_config res \<longleftrightarrow>
     distinct (map fst res)
     \<and> mset (concat (map snd res)) = mset (concat (map snd groups))
     \<and> (\<forall>(rid, ids) \<in> set res. ids \<noteq> []
          \<and> (\<exists>config \<in> set rooms_config. cfg_room_name config = rid
               \<and> (\<exists>L. make_students to_int student_metadata ids = Inr L
                    \<and> room_fits (RoomConfig_init config) L)))"

text \<open>
  Metadata and a catalog for the evaluated instances: \<open>int\<close> on the year strings that
  these instances hold (\<open>'1'\<close> and \<open>'2'\<close>; no instance reads another value), four students,
  two of year 1 and two of year 2, and two rooms, the second of which allows year 1 only.
\<close>

definition demo_int :: "string option \<Rightarrow> error + int" where
  "demo_int v =
     (if v = Some ''1'' then Inr 1 else if v = Some ''2'' then Inr 2
      else Inl (ValueError ''invalid literal for int()''))"

definition demo_metadata :: "string \<Rightarrow> string \<Rightarrow> metadata" where
  "demo_metadata y s =
     \<lparr> md_Name = None, md_Department = Some s, md_Subject = Some s, md_ExamTime = None,
       md_Year = Some y, md_Branch = Some s, md_Batch = Some s \<rparr>"

definition demo_student_metadata :: "string \<rightharpoonup> metadata" where
  "demo_student_metadata =
     [''a'' \<mapsto> demo_metadata ''1'' ''Maths'', ''b'' \<mapsto> demo_metadata ''1'' ''Maths'',
      ''c'' \<mapsto> demo_metadata ''2'' ''Maths'', ''d'' \<mapsto> demo_metadata ''2'' ''Maths'']"

definition demo_catalog :: "room_dict list" where
  "demo_catalog =
     [demo_room_dict ''R1'' 3, (demo_room_dict ''R2'' 2)\<lparr> cfg_allowed_years := Some (YearsList [1]) \<rparr>]"

section \<open>Verified properties\<close>

subsection \<open>The acceptance test\<close>

lemma can_place_iff:
  "find (\<lambda>r. room_id r = rid) rooms = Some rc \<Longrightarrow>
   can_place rooms rs rid g \<longleftrightarrow> room_accepts rc (rs rid) g"
  by (auto simp: can_place_def room_accepts_def Let_def)

lemma ffd_place_Cons:
  "ffd_place g (room # rest) st =
     (if room_accepts room (fst st (room_id room)) g
      then Some ((fst st)(room_id room := ffd_update (fst st (room_id room)) g),
                 dict_append (snd st) (room_id room) (map sid g))
      else ffd_place g rest st)"
  by (auto simp: room_accepts_def ffd_update_def Let_def)



subsection \<open>Graph construction\<close>

lemma keys_dict_set: "fst ` set (dict_set d k v) = insert k (fst ` set d)"
proof (induction d)
  case Nil
  show ?case by simp
next
  case (Cons p d)
  obtain k' l where p: "p = (k', l)" by (cases p)
  show ?case
  proof (cases "k' = k")
    case True
    with p show ?thesis by auto
  next
    case False
    with p Cons show ?thesis by auto
  qed
qed

lemma distinct_keys_dict_set: "distinct (map fst d) \<Longrightarrow> distinct (map fst (dict_set d k v))"
proof (induction d)
  case Nil
  show ?case by simp
next
  case (Cons p d)
  obtain k' l where p: "p = (k', l)" by (cases p)
  show ?case
  proof (cases "k' = k")
    case True
    with p Cons.prems show ?thesis by simp
  next
    case False
    with p Cons show ?thesis by (simp add: keys_dict_set)
  qed
qed

lemma nodes_add_node: "set (nodes (add_node g n)) = insert n (set (nodes g))"
  by (auto simp: add_node_def)

lemma distinct_add_node: "distinct (nodes g) \<Longrightarrow> distinct (nodes (add_node g n))"
  by (auto simp: add_node_def)

lemma adj_add_node: "adj (add_node g n) = adj g"
  by (simp add: add_node_def)

lemma has_edge_add_node: "has_edge (add_node g n) u v = has_edge g u v"
  by (simp add: has_edge_def adj_add_node)

lemma nodes_add_edge: "set (nodes (add_edge g a b w)) = insert a (insert b (set (nodes g)))"
  by (auto simp: add_edge_def Let_def nodes_add_node)

lemma distinct_add_edge: "distinct (nodes g) \<Longrightarrow> distinct (nodes (add_edge g a b w))"
  by (simp add: add_edge_def Let_def distinct_add_node)

lemma has_edge_add_edge:
  "has_edge (add_edge g a b w) u v \<longleftrightarrow> has_edge g u v \<or> (u = a \<and> v = b) \<or> (u = b \<and> v = a)"
  by (simp add: add_edge_def Let_def has_edge_def adj_add_node keys_dict_set) auto

lemma wf_graph_empty: "wf_graph empty_graph"
  by (simp add: wf_graph_def empty_graph_def has_edge_def)

lemma wf_graph_add_node: "wf_graph g \<Longrightarrow> wf_graph (add_node g n)"
  by (auto simp: wf_graph_def has_edge_add_node distinct_add_node nodes_add_node)

lemma wf_graph_add_edge: "wf_graph g \<Longrightarrow> wf_graph (add_edge g a b w)"
  unfolding wf_graph_def
  by (auto simp: has_edge_add_edge distinct_add_edge nodes_add_edge)

subsection \<open>DSatur colouring\<close>

lemma first_free_color_unused: "first_free_color used c \<notin> set used"
proof (induction used c rule: first_free_color.induct)
  case (1 used_colors color)
  show ?case
  proof (cases "color \<in> set used_colors")
    case True
    with 1 show ?thesis by (subst first_free_color.simps) simp
  next
    case False
    then show ?thesis by (subst first_free_color.simps) simp
  qed
qed

lemma py_max_mem: "py_max f x xs \<in> set (x # xs)"
proof -
  have "foldl (\<lambda>best y. if f best < f y then y else best) x xs \<in> set (x # xs)"
  proof (induction xs arbitrary: x)
    case Nil
    show ?case by simp
  next
    case (Cons a xs)
    have "foldl (\<lambda>best y. if f best < f y then y else best) (if f x < f a then a else x) xs
        \<in> set ((if f x < f a then a else x) # xs)"
      by (rule Cons.IH)
    then show ?case by (auto split: if_splits)
  qed
  then show ?thesis by (simp add: py_max_def)
qed

lemma neighbor_colors_mem:
  "distinct (map fst colors) \<Longrightarrow> (v, cv) \<in> set colors \<Longrightarrow> v \<in> set (nbrs u)
   \<Longrightarrow> cv \<in> set (neighbor_colors nbrs colors u)"
  by (force simp: neighbor_colors_def List.map_filter_def image_iff)

lemma proper_on_step:
  assumes sym: "\<forall>u v. v \<in> set (nbrs u) \<longrightarrow> u \<in> set (nbrs v)"
    and d: "distinct (map fst colors)"
    and p: "proper_on nbrs colors"
    and new: "n \<notin> set (map fst colors)"
    and c: "c \<notin> set (neighbor_colors nbrs colors n)"
  shows "proper_on nbrs (colors @ [(n, c)])"
  unfolding proper_on_def
proof (intro allI impI)
  fix u cu v cv
  assume h: "(u, cu) \<in> set (colors @ [(n, c)]) \<and> (v, cv) \<in> set (colors @ [(n, c)]) \<and> u \<noteq> v \<and> v \<in> set (nbrs u)"
  consider (old) "(u, cu) \<in> set colors" "(v, cv) \<in> set colors"
    | (un) "u = n" "cu = c" "(v, cv) \<in> set colors"
    | (vn) "v = n" "cv = c" "(u, cu) \<in> set colors"
    using h by auto
  then show "cu \<noteq> cv"
  proof cases
    case old
    with p h show ?thesis unfolding proper_on_def by blast
  next
    case un
    with h have "cv \<in> set (neighbor_colors nbrs colors n)"
      using neighbor_colors_mem [OF d, of v cv nbrs n] by simp
    with c un show ?thesis by auto
  next
    case vn
    with h sym have "u \<in> set (nbrs n)" by blast
    with vn have "cu \<in> set (neighbor_colors nbrs colors n)"
      using neighbor_colors_mem [OF d, of u cu nbrs n] by simp
    with c vn show ?thesis by auto
  qed
qed

lemma dsatur_loop_invariant:
  "distinct (map fst colors) \<Longrightarrow> set (map fst colors) \<subseteq> set ns \<Longrightarrow> proper_on nbrs colors
    \<Longrightarrow> \<forall>u v. v \<in> set (nbrs u) \<longrightarrow> u \<in> set (nbrs v)
    \<Longrightarrow> distinct (map fst (dsatur_loop ns nbrs deg colors))
        \<and> set (map fst (dsatur_loop ns nbrs deg colors)) = set ns
        \<and> proper_on nbrs (dsatur_loop ns nbrs deg colors)"
proof (induction ns nbrs deg colors rule: dsatur_loop.induct)
  case (1 graph_nodes nbrs degrees colors)
  let ?unc = "filter (\<lambda>node. node \<notin> set (map fst colors)) graph_nodes"
  show ?case
  proof (cases "length colors < length graph_nodes")
    case False
    have "card (set (map fst colors)) = length colors"
      using "1.prems"(1) distinct_card by fastforce
    moreover have "card (set graph_nodes) \<le> length graph_nodes"
      by (rule card_length)
    moreover have "card (set (map fst colors)) \<le> card (set graph_nodes)"
      using "1.prems"(2) by (simp add: card_mono)
    ultimately have "card (set (map fst colors)) = card (set graph_nodes)"
      using False by linarith
    then have "set (map fst colors) = set graph_nodes"
      using "1.prems"(2) by (simp add: card_subset_eq)
    with False "1.prems" show ?thesis
      by (subst (1 2 3) dsatur_loop.simps) simp
  next
    case True
    show ?thesis
    proof (cases ?unc)
      case Nil
      then have "set graph_nodes \<subseteq> set (map fst colors)"
        by (auto simp: filter_empty_conv)
      with True Nil "1.prems" show ?thesis
        by (subst (1 2 3) dsatur_loop.simps) auto
    next
      case (Cons u us)
      define nxt where "nxt = py_max (\<lambda>x. (card (set (neighbor_colors nbrs colors x)), degrees x)) u us"
      define col where "col = first_free_color (neighbor_colors nbrs colors nxt) 0"
      have "nxt \<in> set ?unc"
        unfolding nxt_def Cons by (rule py_max_mem)
      then have nxt: "nxt \<in> set graph_nodes" "nxt \<notin> set (map fst colors)"
        by auto
      have col: "col \<notin> set (neighbor_colors nbrs colors nxt)"
        unfolding col_def by (rule first_free_color_unused)
      have step: "dsatur_loop graph_nodes nbrs degrees colors
          = dsatur_loop graph_nodes nbrs degrees (colors @ [(nxt, col)])"
        using True Cons by (subst dsatur_loop.simps) (simp add: nxt_def col_def Let_def)
      have "distinct (map fst (colors @ [(nxt, col)]))"
        using "1.prems"(1) nxt by simp
      moreover have "set (map fst (colors @ [(nxt, col)])) \<subseteq> set graph_nodes"
        using "1.prems"(2) nxt by simp
      moreover have "proper_on nbrs (colors @ [(nxt, col)])"
        using proper_on_step [OF "1.prems"(4) "1.prems"(1) "1.prems"(3) nxt(2) col] .
      ultimately show ?thesis
        using "1.IH" [OF True Cons, of nxt "neighbor_colors nbrs colors nxt" col] "1.prems"(4) step
        by (simp add: nxt_def col_def)
    qed
  qed
qed

lemma proper_on_map_of:
  assumes d: "distinct (map fst colors)" and p: "proper_on nbrs colors"
    and e: "v \<in> set (nbrs u)" "u \<noteq> v" "u \<in> set (map fst colors)" "v \<in> set (map fst colors)"
  shows "map_of colors u \<noteq> map_of colors v"
proof -
  from e(3) obtain cu where cu: "(u, cu) \<in> set colors" by auto
  from e(4) obtain cv where cv: "(v, cv) \<in> set colors" by auto
  from p cu cv e have "cu \<noteq> cv" unfolding proper_on_def by blast
  moreover have "map_of colors u = Some cu" "map_of colors v = Some cv"
    using d cu cv by simp_all
  ultimately show ?thesis by simp
qed

lemma dsatur_coloring_invariant:
  assumes "wf_graph g"
  shows "distinct (map fst (dsatur_coloring g))
     \<and> set (map fst (dsatur_coloring g)) = set (nodes g)
     \<and> proper_on (neighbors g) (dsatur_coloring g)"
proof (cases "nodes g")
  case Nil
  then show ?thesis by (simp add: dsatur_coloring_def proper_on_def)
next
  case (Cons n ns)
  define current where "current = py_max (degree g) n ns"
  have cur: "current \<in> set (nodes g)"
    unfolding current_def Cons by (rule py_max_mem)
  have sym: "\<forall>u v. v \<in> set (neighbors g u) \<longrightarrow> u \<in> set (neighbors g v)"
    using assms by (auto simp: wf_graph_def has_edge_def neighbors_def)
  have eq: "dsatur_coloring g = dsatur_loop (nodes g) (neighbors g) (degree g) [(current, 0)]"
    by (simp add: dsatur_coloring_def Cons current_def Let_def)
  show ?thesis
    unfolding eq
    by (rule dsatur_loop_invariant) (use cur sym in \<open>simp_all add: proper_on_def\<close>)
qed

lemma distinct_snd_of_injective:
  assumes d: "distinct (map fst colors)"
    and inj: "\<forall>u cu v cv. (u, cu) \<in> set colors \<and> (v, cv) \<in> set colors \<and> u \<noteq> v \<longrightarrow> cu \<noteq> cv"
  shows "distinct (map snd colors)"
  using d inj
proof (induction colors)
  case Nil
  then show ?case by simp
next
  case (Cons p colors)
  obtain u cu where p: "p = (u, cu)" by (cases p)
  have "cu \<notin> set (map snd colors)"
  proof
    assume "cu \<in> set (map snd colors)"
    then obtain v where v: "(v, cu) \<in> set colors" by auto
    with Cons.prems(1) p have "u \<noteq> v" by force
    with Cons.prems(2) p v show False by auto
  qed
  moreover have "distinct (map snd colors)"
    using Cons by auto
  ultimately show ?case using p by simp
qed

text \<open>
  C6: \<open>dsatur_coloring\<close> is a total function (its loop is defined with a termination
  proof), so it returns for every graph. The result colours every node exactly once,
  the two end points of every edge get different colours (an edge from a node to itself
  has one end point only), the empty graph gets the empty mapping, a single node gets
  colour 0, and a graph in which all nodes are pairwise adjacent gets as many colours
  as it has nodes.
\<close>

theorem dsatur_coloring_proper:
  assumes "wf_graph g"
  shows "distinct (map fst (dsatur_coloring g))
     \<and> set (map fst (dsatur_coloring g)) = set (nodes g)
     \<and> (\<forall>u v. has_edge g u v \<and> u \<noteq> v \<longrightarrow> color_of (dsatur_coloring g) u \<noteq> color_of (dsatur_coloring g) v)
     \<and> (nodes g = [] \<longrightarrow> dsatur_coloring g = [])
     \<and> (\<forall>n. nodes g = [n] \<longrightarrow> dsatur_coloring g = [(n, 0)])
     \<and> ((\<forall>u \<in> set (nodes g). \<forall>v \<in> set (nodes g). u \<noteq> v \<longrightarrow> has_edge g u v)
          \<longrightarrow> card (set (map snd (dsatur_coloring g))) = length (nodes g))"
proof -
  let ?c = "dsatur_coloring g"
  from dsatur_coloring_invariant [OF assms]
  have d: "distinct (map fst ?c)" and dom: "set (map fst ?c) = set (nodes g)"
    and p: "proper_on (neighbors g) ?c"
    by simp_all
  have edges: "\<forall>u v. has_edge g u v \<and> u \<noteq> v \<longrightarrow> color_of ?c u \<noteq> color_of ?c v"
  proof (intro allI impI)
    fix u v
    assume h: "has_edge g u v \<and> u \<noteq> v"
    then have "has_edge g v u" "u \<in> set (nodes g)"
      using assms by (auto simp: wf_graph_def)
    then have "v \<in> set (nodes g)"
      using assms by (auto simp: wf_graph_def)
    with h \<open>u \<in> set (nodes g)\<close> show "color_of ?c u \<noteq> color_of ?c v"
      unfolding color_of_def
      using proper_on_map_of [OF d p, of v u] dom by (simp add: has_edge_def neighbors_def)
  qed
  have empty: "nodes g = [] \<longrightarrow> ?c = []"
    by (simp add: dsatur_coloring_def)
  have single: "\<forall>n. nodes g = [n] \<longrightarrow> ?c = [(n, 0)]"
    by (simp add: dsatur_coloring_def py_max_def dsatur_loop.simps)
  have complete: "(\<forall>u \<in> set (nodes g). \<forall>v \<in> set (nodes g). u \<noteq> v \<longrightarrow> has_edge g u v)
          \<longrightarrow> card (set (map snd ?c)) = length (nodes g)"
  proof
    assume all: "\<forall>u \<in> set (nodes g). \<forall>v \<in> set (nodes g). u \<noteq> v \<longrightarrow> has_edge g u v"
    have "\<forall>u cu v cv. (u, cu) \<in> set ?c \<and> (v, cv) \<in> set ?c \<and> u \<noteq> v \<longrightarrow> cu \<noteq> cv"
    proof (intro allI impI)
      fix u cu v cv
      assume h: "(u, cu) \<in> set ?c \<and> (v, cv) \<in> set ?c \<and> u \<noteq> v"
      then have "u \<in> set (nodes g)" "v \<in> set (nodes g)"
        using dom by force+
      with all h have "v \<in> set (neighbors g u)"
        by (simp add: has_edge_def neighbors_def)
      with p h show "cu \<noteq> cv"
        unfolding proper_on_def by blast
    qed
    then have "distinct (map snd ?c)"
      using d by (rule distinct_snd_of_injective [rotated])
    then have "card (set (map snd ?c)) = length ?c"
      using distinct_card by fastforce
    also have "length ?c = length (map fst ?c)" by simp
    also have "\<dots> = card (set (map fst ?c))"
      using d distinct_card by fastforce
    also have "\<dots> = length (nodes g)"
      using dom assms by (simp add: wf_graph_def distinct_card)
    finally show "card (set (map snd ?c)) = length (nodes g)" .
  qed
  show ?thesis
    using d dom edges empty single complete by blast
qed

theorem dsatur_coloring_proper_witness:
  "wf_graph K3
   \<and> set (map fst (dsatur_coloring K3)) = {''a'', ''b'', ''c''}
   \<and> color_of (dsatur_coloring K3) ''a'' \<noteq> color_of (dsatur_coloring K3) ''b''
   \<and> card (set (map snd (dsatur_coloring K3))) = 3"
proof -
  have wf: "wf_graph K3"
    unfolding K3_def by (intro wf_graph_add_edge wf_graph_empty)
  have n: "nodes K3 = [''a'', ''b'', ''c'']"
    by (simp add: K3_def add_edge_def add_node_def empty_graph_def Let_def)
  have e: "has_edge K3 u v \<longleftrightarrow> (u, v) \<in> {(''a'', ''b''), (''b'', ''a''), (''b'', ''c''), (''c'', ''b''), (''a'', ''c''), (''c'', ''a'')}" for u v
    unfolding K3_def has_edge_add_edge by (auto simp: empty_graph_def has_edge_def)
  show ?thesis
    using dsatur_coloring_proper [OF wf] wf n e by auto
qed

subsection \<open>The conflict graph and the colour groups\<close>

lemma foldl_add_node_nodes: "set (nodes (foldl add_node g ns)) = set (nodes g) \<union> set ns"
  by (induction ns arbitrary: g) (auto simp: nodes_add_node)

lemma foldl_add_node_wf: "wf_graph g \<Longrightarrow> wf_graph (foldl add_node g ns)"
  by (induction ns arbitrary: g) (auto simp: wf_graph_add_node)

lemma foldl_add_node_has_edge: "has_edge (foldl add_node g ns) u v = has_edge g u v"
  by (induction ns arbitrary: g) (auto simp: has_edge_add_node)

lemma later_pairs_total:
  "a \<in> set xs \<Longrightarrow> b \<in> set xs \<Longrightarrow> a \<noteq> b \<Longrightarrow> (a, b) \<in> later_pairs xs \<or> (b, a) \<in> later_pairs xs"
  by (induction xs) auto

lemma later_pairs_mem: "(a, b) \<in> later_pairs xs \<Longrightarrow> a \<in> set xs \<and> b \<in> set xs"
  by (induction xs) auto

lemma time_inner_has_edge:
  "has_edge (foldl (time_conflict_step weight s1) g later) u v
   \<longleftrightarrow> has_edge g u v
       \<or> (\<exists>s2 \<in> set later. same_slot s1 s2
            \<and> ((u = row_StudentID s1 \<and> v = row_StudentID s2) \<or> (u = row_StudentID s2 \<and> v = row_StudentID s1)))"
  by (induction later arbitrary: g) (auto simp: has_edge_add_edge same_slot_def time_conflict_step_def)

lemma time_inner_wf:
  "wf_graph g \<Longrightarrow>
   wf_graph (foldl (time_conflict_step weight s1) g later)"
  by (induction later arbitrary: g) (auto simp: wf_graph_add_edge time_conflict_step_def)

lemma time_inner_nodes:
  "row_StudentID s1 \<in> set (nodes g) \<Longrightarrow> row_StudentID ` set later \<subseteq> set (nodes g) \<Longrightarrow>
   set (nodes (foldl (time_conflict_step weight s1) g later)) = set (nodes g)"
proof (induction later arbitrary: g)
  case Nil
  show ?case by simp
next
  case (Cons s2 later)
  have step: "set (nodes (time_conflict_step weight s1 g s2)) = set (nodes g)"
    using Cons.prems by (auto simp: time_conflict_step_def nodes_add_edge)
  have "set (nodes (foldl (time_conflict_step weight s1) (time_conflict_step weight s1 g s2) later))
      = set (nodes (time_conflict_step weight s1 g s2))"
    using Cons.prems by (intro Cons.IH) (auto simp: step)
  with step show ?case by simp
qed

lemma time_conflict_edges_has_edge:
  "has_edge (time_conflict_edges weight df g) u v
   \<longleftrightarrow> has_edge g u v
       \<or> (\<exists>(s1, s2) \<in> later_pairs df. same_slot s1 s2
            \<and> ((u = row_StudentID s1 \<and> v = row_StudentID s2) \<or> (u = row_StudentID s2 \<and> v = row_StudentID s1)))"
proof (induction df arbitrary: g)
  case Nil
  show ?case by simp
next
  case (Cons s1 later)
  show ?case
    by (simp only: time_conflict_edges.simps Cons.IH time_inner_has_edge later_pairs.simps) blast
qed

lemma time_conflict_edges_wf: "wf_graph g \<Longrightarrow> wf_graph (time_conflict_edges weight df g)"
  by (induction df arbitrary: g) (auto simp: time_inner_wf)

lemma time_conflict_edges_nodes:
  "row_StudentID ` set df \<subseteq> set (nodes g) \<Longrightarrow> set (nodes (time_conflict_edges weight df g)) = set (nodes g)"
proof (induction df arbitrary: g)
  case Nil
  show ?case by simp
next
  case (Cons s1 later)
  have n: "set (nodes (foldl (time_conflict_step weight s1) g later)) = set (nodes g)"
    using Cons.prems by (intro time_inner_nodes) auto
  have "set (nodes (time_conflict_edges weight later (foldl (time_conflict_step weight s1) g later)))
      = set (nodes (foldl (time_conflict_step weight s1) g later))"
    using Cons.prems by (intro Cons.IH) (auto simp: n)
  with n show ?case by simp
qed

lemma has_edge_add_friend_pair:
  "has_edge (add_friend_pair ids g (a, b)) u v
   \<longleftrightarrow> has_edge g u v \<or> (a \<in> ids \<and> b \<in> ids \<and> ((u = a \<and> v = b) \<or> (u = b \<and> v = a)))"
proof (cases "a \<in> ids \<and> b \<in> ids")
  case False
  then show ?thesis by (auto simp: add_friend_pair_def)
next
  case True
  show ?thesis
  proof (cases "has_edge g a b")
    case False
    with True show ?thesis by (simp add: add_friend_pair_def has_edge_add_edge)
  next
    case e: True
    with True show ?thesis
      by (simp add: add_friend_pair_def Let_def has_edge_def keys_dict_set) auto
  qed
qed

lemma nodes_add_friend_pair:
  "a \<in> set (nodes g) \<Longrightarrow> b \<in> set (nodes g) \<Longrightarrow> nodes (add_friend_pair ids g (a, b)) = nodes g"
  by (auto simp: add_friend_pair_def Let_def add_edge_def add_node_def)

lemma nodes_add_friend_pair_out:
  "\<not> (a \<in> ids \<and> b \<in> ids) \<Longrightarrow> add_friend_pair ids g (a, b) = g"
  by (auto simp: add_friend_pair_def)

lemma wf_graph_add_friend_pair:
  assumes "wf_graph g" and "ids \<subseteq> set (nodes g)"
  shows "wf_graph (add_friend_pair ids g p)"
proof -
  obtain a b where p: "p = (a, b)" by (cases p)
  show ?thesis
  proof (cases "a \<in> ids \<and> b \<in> ids")
    case False
    with assms p show ?thesis by (simp add: nodes_add_friend_pair_out)
  next
    case True
    then have ab: "a \<in> set (nodes g)" "b \<in> set (nodes g)"
      using assms(2) by auto
    show ?thesis
      unfolding wf_graph_def p
      using assms(1) ab
      by (auto simp: has_edge_add_friend_pair nodes_add_friend_pair wf_graph_def)
  qed
qed

lemma friend_pairs_nodes:
  "ids \<subseteq> set (nodes g) \<Longrightarrow> nodes (foldl (add_friend_pair ids) g ps) = nodes g"
proof (induction ps arbitrary: g)
  case Nil
  show ?case by simp
next
  case (Cons p ps)
  obtain a b where p: "p = (a, b)" by (cases p)
  have n: "nodes (add_friend_pair ids g p) = nodes g"
  proof (cases "a \<in> ids \<and> b \<in> ids")
    case True
    with Cons.prems p show ?thesis by (auto intro: nodes_add_friend_pair)
  next
    case False
    with p show ?thesis by (simp add: nodes_add_friend_pair_out)
  qed
  have "nodes (foldl (add_friend_pair ids) (add_friend_pair ids g p) ps) = nodes (add_friend_pair ids g p)"
    using Cons.prems by (intro Cons.IH) (simp add: n)
  with n show ?case by simp
qed

lemma friend_pairs_wf:
  "wf_graph g \<Longrightarrow> ids \<subseteq> set (nodes g) \<Longrightarrow> wf_graph (foldl (add_friend_pair ids) g ps)"
proof (induction ps arbitrary: g)
  case Nil
  then show ?case by simp
next
  case (Cons p ps)
  have w: "wf_graph (add_friend_pair ids g p)"
    using Cons.prems by (rule wf_graph_add_friend_pair)
  have "nodes (foldl (add_friend_pair ids) g [p]) = nodes g"
    using Cons.prems(2) by (rule friend_pairs_nodes)
  then have n: "ids \<subseteq> set (nodes (add_friend_pair ids g p))"
    using Cons.prems(2) by simp
  show ?case
    using Cons.IH [OF w n] by simp
qed

lemma friend_pairs_has_edge:
  "has_edge (foldl (add_friend_pair ids) g ps) u v
   \<longleftrightarrow> has_edge g u v
       \<or> (\<exists>(a, b) \<in> set ps. a \<in> ids \<and> b \<in> ids \<and> ((u = a \<and> v = b) \<or> (u = b \<and> v = a)))"
proof (induction ps arbitrary: g)
  case Nil
  show ?case by simp
next
  case (Cons p ps)
  obtain a b where p: "p = (a, b)" by (cases p)
  show ?case
    unfolding foldl_Cons Cons.IH p has_edge_add_friend_pair by auto
qed

lemma section_step_has_edge:
  "has_edge (section_step s1 g s2) u v
   \<longleftrightarrow> has_edge g u v \<or> (u = s1 \<and> v = s2) \<or> (u = s2 \<and> v = s1 \<and> \<not> has_edge g s1 s2)"
  by (auto simp: section_step_def has_edge_add_edge)

lemma section_step_mono: "has_edge g u v \<Longrightarrow> has_edge (section_step s1 g s2) u v"
  by (simp add: section_step_has_edge)

lemma section_step_wf: "wf_graph g \<Longrightarrow> wf_graph (section_step s1 g s2)"
  by (simp add: section_step_def wf_graph_add_edge)

lemma section_step_nodes:
  "s1 \<in> set (nodes g) \<Longrightarrow> s2 \<in> set (nodes g) \<Longrightarrow> set (nodes (section_step s1 g s2)) = set (nodes g)"
  by (auto simp: section_step_def nodes_add_edge)

lemma section_inner_props:
  "wf_graph g \<Longrightarrow> s1 \<in> set (nodes g) \<Longrightarrow> set later \<subseteq> set (nodes g) \<Longrightarrow>
   wf_graph (foldl (section_step s1) g later)
   \<and> set (nodes (foldl (section_step s1) g later)) = set (nodes g)
   \<and> (\<forall>u v. has_edge g u v \<longrightarrow> has_edge (foldl (section_step s1) g later) u v)"
proof (induction later arbitrary: g)
  case Nil
  then show ?case by simp
next
  case (Cons s2 later)
  let ?g = "section_step s1 g s2"
  have w: "wf_graph ?g" using Cons.prems(1) by (rule section_step_wf)
  have n: "set (nodes ?g) = set (nodes g)"
    using Cons.prems by (intro section_step_nodes) auto
  have "wf_graph (foldl (section_step s1) ?g later)
   \<and> set (nodes (foldl (section_step s1) ?g later)) = set (nodes ?g)
   \<and> (\<forall>u v. has_edge ?g u v \<longrightarrow> has_edge (foldl (section_step s1) ?g later) u v)"
    using Cons.prems by (intro Cons.IH [OF w]) (auto simp: n)
  with n show ?case by (auto simp: section_step_mono)
qed

lemma section_edges_props:
  "wf_graph g \<Longrightarrow> set ss \<subseteq> set (nodes g) \<Longrightarrow>
   wf_graph (section_edges ss g)
   \<and> set (nodes (section_edges ss g)) = set (nodes g)
   \<and> (\<forall>u v. has_edge g u v \<longrightarrow> has_edge (section_edges ss g) u v)"
proof (induction ss arbitrary: g)
  case Nil
  then show ?case by simp
next
  case (Cons s1 later)
  let ?g = "foldl (section_step s1) g later"
  have inner: "wf_graph ?g \<and> set (nodes ?g) = set (nodes g) \<and> (\<forall>u v. has_edge g u v \<longrightarrow> has_edge ?g u v)"
    using Cons.prems by (intro section_inner_props) auto
  then have "wf_graph (section_edges later ?g)
   \<and> set (nodes (section_edges later ?g)) = set (nodes ?g)
   \<and> (\<forall>u v. has_edge ?g u v \<longrightarrow> has_edge (section_edges later ?g) u v)"
    using Cons.prems by (intro Cons.IH) auto
  with inner show ?case by auto
qed

lemma keys_dict_append: "fst ` set (dict_append d k vs) = insert k (fst ` set d)"
proof (induction d)
  case Nil
  show ?case by simp
next
  case (Cons p d)
  obtain k' l where p: "p = (k', l)" by (cases p)
  show ?case
  proof (cases "k' = k")
    case True
    with p show ?thesis by auto
  next
    case False
    with p Cons show ?thesis by auto
  qed
qed

lemma distinct_keys_dict_append:
  "distinct (map fst d) \<Longrightarrow> distinct (map fst (dict_append d k vs))"
proof (induction d)
  case Nil
  show ?case by simp
next
  case (Cons p d)
  obtain k' l where p: "p = (k', l)" by (cases p)
  show ?case
  proof (cases "k' = k")
    case True
    with p Cons.prems show ?thesis by simp
  next
    case False
    with p Cons show ?thesis by (simp add: keys_dict_append)
  qed
qed

lemma mset_concat_dict_append:
  "mset (concat (map snd (dict_append d k vs))) = mset (concat (map snd d)) + mset vs"
  by (induction d) (auto split: if_splits)

lemma values_dict_append:
  "(c, m) \<in> set (dict_append d k vs) \<Longrightarrow>
   (c, m) \<in> set d \<or> (c = k \<and> (\<exists>m0. m = m0 @ vs \<and> ((k, m0) \<in> set d \<or> m0 = [])))"
  by (induction d) (auto split: if_splits)

lemma section_groups_members:
  "\<forall>(k, ss) \<in> set (foldl (\<lambda>d r. dict_append d (row_Batch r, row_Year r, row_Department r) [row_StudentID r]) d0 df).
      set ss \<subseteq> S"
  if "\<forall>(k, ss) \<in> set d0. set ss \<subseteq> S" and "row_StudentID ` set df \<subseteq> S"
  using that
proof (induction df arbitrary: d0)
  case Nil
  then show ?case by simp
next
  case (Cons r df)
  have "\<forall>(k, ss) \<in> set (dict_append d0 (row_Batch r, row_Year r, row_Department r) [row_StudentID r]). set ss \<subseteq> S"
  proof (clarify)
    fix a b c ss x
    assume "((a, b, c), ss) \<in> set (dict_append d0 (row_Batch r, row_Year r, row_Department r) [row_StudentID r])"
      and x: "x \<in> set ss"
    from values_dict_append [OF this(1)] Cons.prems x show "x \<in> S"
      by fastforce
  qed
  then show ?case
    using Cons.prems by (simp only: foldl_Cons) (rule Cons.IH, auto)
qed

lemma section_pass_props:
  "wf_graph g \<Longrightarrow> \<forall>ss \<in> set groups. set ss \<subseteq> set (nodes g) \<Longrightarrow>
   wf_graph (foldl (\<lambda>g students. if length students > 1 then section_edges students g else g) g groups)
   \<and> set (nodes (foldl (\<lambda>g students. if length students > 1 then section_edges students g else g) g groups))
       = set (nodes g)
   \<and> (\<forall>u v. has_edge g u v \<longrightarrow>
         has_edge (foldl (\<lambda>g students. if length students > 1 then section_edges students g else g) g groups) u v)"
proof (induction groups arbitrary: g)
  case Nil
  then show ?case by simp
next
  case (Cons ss groups)
  let ?step = "\<lambda>g students. if length students > 1 then section_edges students g else g"
  let ?g = "?step g ss"
  have one: "wf_graph ?g \<and> set (nodes ?g) = set (nodes g) \<and> (\<forall>u v. has_edge g u v \<longrightarrow> has_edge ?g u v)"
    using Cons.prems section_edges_props [of g ss] by auto
  then have "wf_graph (foldl ?step ?g groups) \<and> set (nodes (foldl ?step ?g groups)) = set (nodes ?g)
     \<and> (\<forall>u v. has_edge ?g u v \<longrightarrow> has_edge (foldl ?step ?g groups) u v)"
    using Cons.prems by (intro Cons.IH) auto
  with one show ?case by (simp only: foldl_Cons) blast
qed

lemma build_enhanced_conflict_graph_props:
  "wf_graph (build_enhanced_conflict_graph db df fp sec)
   \<and> set (nodes (build_enhanced_conflict_graph db df fp sec)) = row_StudentID ` set df
   \<and> (\<forall>(s1, s2) \<in> later_pairs df. same_slot s1 s2 \<longrightarrow>
         has_edge (build_enhanced_conflict_graph db df fp sec) (row_StudentID s1) (row_StudentID s2))"
proof -
  define g0 where "g0 = foldl add_node (empty_graph :: string graph) (map row_StudentID df)"
  define g1 where "g1 = time_conflict_edges (Some 10) df g0"
  define ps where "ps = (case fp of None \<Rightarrow> db | Some ps \<Rightarrow> ps)"
  define g2 where "g2 = foldl (add_friend_pair (set (map row_StudentID df))) g1 ps"
  define g3 where "g3 = foldl (\<lambda>g students. if length students > 1 then section_edges students g else g)
             g2 (map snd (section_groups df))"
  have b: "build_enhanced_conflict_graph db df fp sec = (if sec then g3 else g2)"
    by (simp add: build_enhanced_conflict_graph_def Let_def g0_def g1_def g2_def g3_def ps_def)
  have w0: "wf_graph g0" unfolding g0_def by (intro foldl_add_node_wf wf_graph_empty)
  have n0: "set (nodes g0) = row_StudentID ` set df"
    by (simp add: g0_def foldl_add_node_nodes empty_graph_def)
  have w1: "wf_graph g1" unfolding g1_def using w0 by (rule time_conflict_edges_wf)
  have n1: "set (nodes g1) = row_StudentID ` set df"
    unfolding g1_def using n0 by (subst time_conflict_edges_nodes) auto
  have e1: "\<forall>(s1, s2) \<in> later_pairs df. same_slot s1 s2 \<longrightarrow> has_edge g1 (row_StudentID s1) (row_StudentID s2)"
    unfolding g1_def time_conflict_edges_has_edge by blast
  have w2: "wf_graph g2" unfolding g2_def using w1 n1 by (intro friend_pairs_wf) auto
  have n2: "set (nodes g2) = row_StudentID ` set df"
    unfolding g2_def using n1 by (subst friend_pairs_nodes) auto
  have e2: "\<forall>(s1, s2) \<in> later_pairs df. same_slot s1 s2 \<longrightarrow> has_edge g2 (row_StudentID s1) (row_StudentID s2)"
    using e1 unfolding g2_def friend_pairs_has_edge by blast
  have members: "\<forall>ss \<in> set (map snd (section_groups df)). set ss \<subseteq> set (nodes g2)"
    using section_groups_members [of "[]" "row_StudentID ` set df" df] n2
    by (fastforce simp: section_groups_def)
  have p3: "wf_graph g3 \<and> set (nodes g3) = set (nodes g2) \<and> (\<forall>u v. has_edge g2 u v \<longrightarrow> has_edge g3 u v)"
    unfolding g3_def using w2 members by (rule section_pass_props)
  show ?thesis
    unfolding b using w2 n2 e2 p3 by (cases sec) auto
qed

lemma basic_conflict_graph_props:
  "wf_graph (basic_conflict_graph df)
   \<and> set (nodes (basic_conflict_graph df)) = row_StudentID ` set df
   \<and> (\<forall>(s1, s2) \<in> later_pairs df. same_slot s1 s2 \<longrightarrow>
         has_edge (basic_conflict_graph df) (row_StudentID s1) (row_StudentID s2))"
proof -
  define g0 where "g0 = foldl add_node (empty_graph :: string graph) (map row_StudentID df)"
  have w0: "wf_graph g0" unfolding g0_def by (intro foldl_add_node_wf wf_graph_empty)
  have n0: "set (nodes g0) = row_StudentID ` set df"
    by (simp add: g0_def foldl_add_node_nodes empty_graph_def)
  have b: "basic_conflict_graph df = time_conflict_edges None df g0"
    by (simp add: basic_conflict_graph_def g0_def)
  have "wf_graph (time_conflict_edges None df g0)"
    using w0 by (rule time_conflict_edges_wf)
  moreover have "set (nodes (time_conflict_edges None df g0)) = row_StudentID ` set df"
    using n0 by (subst time_conflict_edges_nodes) auto
  moreover have "\<forall>(s1, s2) \<in> later_pairs df. same_slot s1 s2 \<longrightarrow>
      has_edge (time_conflict_edges None df g0) (row_StudentID s1) (row_StudentID s2)"
    unfolding time_conflict_edges_has_edge by blast
  ultimately show ?thesis unfolding b by blast
qed

lemma get_colored_groups_eq:
  "get_colored_groups db df fp ef es = groups_of_colors (dsatur_coloring (conflict_graph_of db df fp ef es))"
  by (simp add: get_colored_groups_def conflict_graph_of_def groups_of_colors_def Let_def)

lemma conflict_graph_of_props:
  "wf_graph (conflict_graph_of db df fp ef es)
   \<and> set (nodes (conflict_graph_of db df fp ef es)) = row_StudentID ` set df
   \<and> (\<forall>(s1, s2) \<in> later_pairs df. same_slot s1 s2 \<longrightarrow>
         has_edge (conflict_graph_of db df fp ef es) (row_StudentID s1) (row_StudentID s2))"
  unfolding conflict_graph_of_def
  using build_enhanced_conflict_graph_props basic_conflict_graph_props
  by (simp split: if_splits)

lemma groups_fold_props:
  fixes cm :: "('a \<times> nat) list"
  assumes "distinct (map fst d)" and "\<forall>(c, m) \<in> set d. \<forall>s \<in> set m. (s, c) \<in> S" and "set cm \<subseteq> S"
  shows "distinct (map fst (foldl (\<lambda>groups (student, color). dict_append groups color [student]) d cm))
    \<and> (\<forall>(c, m) \<in> set (foldl (\<lambda>groups (student, color). dict_append groups color [student]) d cm).
          \<forall>s \<in> set m. (s, c) \<in> S)
    \<and> mset (concat (map snd (foldl (\<lambda>groups (student, color). dict_append groups color [student]) d cm)))
        = mset (concat (map snd d)) + mset (map fst cm)"
  using assms
proof (induction cm arbitrary: d)
  case Nil
  then show ?case by simp
next
  case (Cons p cm)
  obtain s c where p: "p = (s, c)" by (cases p)
  let ?d = "dict_append d c [s]"
  have d1: "distinct (map fst ?d)"
    using Cons.prems(1) by (rule distinct_keys_dict_append)
  have d2: "\<forall>(c', m) \<in> set ?d. \<forall>s' \<in> set m. (s', c') \<in> S"
  proof clarify
    fix c' m s'
    assume "(c', m) \<in> set ?d" and s': "s' \<in> set m"
    from values_dict_append [OF this(1)] Cons.prems(2,3) p s' show "(s', c') \<in> S"
      by fastforce
  qed
  have d3: "set cm \<subseteq> S" using Cons.prems(3) by simp
  from Cons.IH [OF d1 d2 d3] show ?case
    by (simp add: p mset_concat_dict_append)
qed

lemma groups_of_colors_props:
  "distinct (map fst (groups_of_colors cm))
   \<and> (\<forall>(c, m) \<in> set (groups_of_colors cm). \<forall>s \<in> set m. (s, c) \<in> set cm)
   \<and> mset (concat (map snd (groups_of_colors cm))) = mset (map fst cm)"
  unfolding groups_of_colors_def
  using groups_fold_props [of "[]" "set cm" cm] by simp

text \<open>
  C1: whatever the friend pairs and the two separation flags, two roster rows with the
  same exam date and exam time that belong to two examinees (different student ids)
  never have their ids in the same colour group; and every examinee of the roster is in
  exactly one colour group, exactly once: the colours are distinct keys, no id occurs
  twice in the groups, and the groups hold the roster's ids and nothing else.
\<close>

theorem get_colored_groups_separates_same_slot:
  "(\<forall>r1 \<in> set df. \<forall>r2 \<in> set df.
      row_ExamDate r1 = row_ExamDate r2 \<and> row_ExamTime r1 = row_ExamTime r2
      \<and> row_StudentID r1 \<noteq> row_StudentID r2 \<longrightarrow>
      \<not> (\<exists>c members. (c, members) \<in> set (get_colored_groups db df fp ef es)
            \<and> row_StudentID r1 \<in> set members \<and> row_StudentID r2 \<in> set members))
   \<and> (\<forall>r \<in> set df. \<exists>!c. \<exists>members. (c, members) \<in> set (get_colored_groups db df fp ef es)
            \<and> row_StudentID r \<in> set members)
   \<and> distinct (map fst (get_colored_groups db df fp ef es))
   \<and> distinct (concat (map snd (get_colored_groups db df fp ef es)))
   \<and> set (concat (map snd (get_colored_groups db df fp ef es))) = row_StudentID ` set df"
proof -
  let ?g = "conflict_graph_of db df fp ef es"
  let ?cm = "dsatur_coloring ?g"
  let ?gs = "get_colored_groups db df fp ef es"
  have gs: "?gs = groups_of_colors ?cm" by (rule get_colored_groups_eq)
  from conflict_graph_of_props [of db df fp ef es]
  have wf: "wf_graph ?g" and n: "set (nodes ?g) = row_StudentID ` set df"
    and e: "\<forall>(s1, s2) \<in> later_pairs df. same_slot s1 s2 \<longrightarrow> has_edge ?g (row_StudentID s1) (row_StudentID s2)"
    by blast+
  from dsatur_coloring_invariant [OF wf]
  have d: "distinct (map fst ?cm)" and dom: "set (map fst ?cm) = set (nodes ?g)"
    and p: "proper_on (neighbors ?g) ?cm"
    by simp_all
  from groups_of_colors_props [of ?cm]
  have k: "distinct (map fst ?gs)"
    and mem: "\<forall>(c, m) \<in> set ?gs. \<forall>s \<in> set m. (s, c) \<in> set ?cm"
    and ms: "mset (concat (map snd ?gs)) = mset (map fst ?cm)"
    unfolding gs by blast+
  have dc: "distinct (concat (map snd ?gs))"
    using ms d by (metis mset_eq_imp_distinct_iff)
  have sc: "set (concat (map snd ?gs)) = row_StudentID ` set df"
    using ms dom n by (metis set_mset_mset)
  have sep: "\<forall>r1 \<in> set df. \<forall>r2 \<in> set df.
      row_ExamDate r1 = row_ExamDate r2 \<and> row_ExamTime r1 = row_ExamTime r2
      \<and> row_StudentID r1 \<noteq> row_StudentID r2 \<longrightarrow>
      \<not> (\<exists>c members. (c, members) \<in> set ?gs
            \<and> row_StudentID r1 \<in> set members \<and> row_StudentID r2 \<in> set members)"
  proof (intro ballI impI notI)
    fix r1 r2
    assume r: "r1 \<in> set df" "r2 \<in> set df"
      and h: "row_ExamDate r1 = row_ExamDate r2 \<and> row_ExamTime r1 = row_ExamTime r2
        \<and> row_StudentID r1 \<noteq> row_StudentID r2"
      and ex: "\<exists>c members. (c, members) \<in> set ?gs
            \<and> row_StudentID r1 \<in> set members \<and> row_StudentID r2 \<in> set members"
    from h have "r1 \<noteq> r2" by auto
    with r have "(r1, r2) \<in> later_pairs df \<or> (r2, r1) \<in> later_pairs df"
      by (rule later_pairs_total)
    with e h have "has_edge ?g (row_StudentID r1) (row_StudentID r2)
        \<or> has_edge ?g (row_StudentID r2) (row_StudentID r1)"
      by (auto simp: same_slot_def)
    with wf have "has_edge ?g (row_StudentID r1) (row_StudentID r2)"
      by (auto simp: wf_graph_def)
    then have nb: "row_StudentID r2 \<in> set (neighbors ?g (row_StudentID r1))"
      by (simp add: has_edge_def neighbors_def)
    from ex obtain c members where cm: "(c, members) \<in> set ?gs"
      "row_StudentID r1 \<in> set members" "row_StudentID r2 \<in> set members"
      by blast
    with mem have "(row_StudentID r1, c) \<in> set ?cm" "(row_StudentID r2, c) \<in> set ?cm"
      by auto
    with p h nb show False
      unfolding proper_on_def by blast
  qed
  have uniq: "\<forall>r \<in> set df. \<exists>!c. \<exists>members. (c, members) \<in> set ?gs \<and> row_StudentID r \<in> set members"
  proof
    fix r
    assume "r \<in> set df"
    then have "row_StudentID r \<in> set (concat (map snd ?gs))"
      using sc by auto
    then obtain c members where cm: "(c, members) \<in> set ?gs" "row_StudentID r \<in> set members"
      by auto
    show "\<exists>!c. \<exists>members. (c, members) \<in> set ?gs \<and> row_StudentID r \<in> set members"
    proof (rule ex1I [of _ c])
      show "\<exists>members. (c, members) \<in> set ?gs \<and> row_StudentID r \<in> set members"
        using cm by blast
    next
      fix c'
      assume "\<exists>members. (c', members) \<in> set ?gs \<and> row_StudentID r \<in> set members"
      then have "(row_StudentID r, c') \<in> set ?cm"
        using mem by auto
      moreover have "(row_StudentID r, c) \<in> set ?cm"
        using mem cm by auto
      ultimately show "c' = c"
        using d by (meson eq_key_imp_eq_value)
    qed
  qed
  show ?thesis
    using sep uniq k dc sc by blast
qed

theorem get_colored_groups_separates_same_slot_witness:
  "demo_row ''a'' ''d1'' ''AM'' \<in> set [demo_row ''a'' ''d1'' ''AM'', demo_row ''b'' ''d1'' ''AM'']
   \<and> demo_row ''b'' ''d1'' ''AM'' \<in> set [demo_row ''a'' ''d1'' ''AM'', demo_row ''b'' ''d1'' ''AM'']
   \<and> \<not> (\<exists>c members.
          (c, members) \<in> set (get_colored_groups [] [demo_row ''a'' ''d1'' ''AM'', demo_row ''b'' ''d1'' ''AM'']
                                  None True True)
          \<and> ''a'' \<in> set members \<and> ''b'' \<in> set members)
   \<and> (\<exists>!c. \<exists>members.
          (c, members) \<in> set (get_colored_groups [] [demo_row ''a'' ''d1'' ''AM'', demo_row ''b'' ''d1'' ''AM'']
                                  None True True)
          \<and> ''a'' \<in> set members)"
proof -
  let ?ra = "demo_row ''a'' ''d1'' ''AM''" and ?rb = "demo_row ''b'' ''d1'' ''AM''"
  let ?df = "[?ra, ?rb]"
  note t = get_colored_groups_separates_same_slot [of ?df "[]" None True True]
  have a: "?ra \<in> set ?df" and b: "?rb \<in> set ?df"
    by simp_all
  have ids: "row_StudentID ?ra = ''a''" "row_StudentID ?rb = ''b''"
    and slot: "row_ExamDate ?ra = row_ExamDate ?rb \<and> row_ExamTime ?ra = row_ExamTime ?rb
      \<and> row_StudentID ?ra \<noteq> row_StudentID ?rb"
    by (simp_all add: demo_row_def)
  have 1: "\<not> (\<exists>c members. (c, members) \<in> set (get_colored_groups [] ?df None True True)
          \<and> ''a'' \<in> set members \<and> ''b'' \<in> set members)"
    using t [THEN conjunct1, rule_format, OF a b slot] unfolding ids .
  have 2: "\<exists>!c. \<exists>members. (c, members) \<in> set (get_colored_groups [] ?df None True True)
          \<and> ''a'' \<in> set members"
    using t [THEN conjunct2, THEN conjunct1, rule_format, OF a] unfolding ids .
  show ?thesis using a b 1 2 by (intro conjI)
qed

subsection \<open>Seat placement: the search for a cell\<close>

lemma set_py_range: "set (py_range n) = {i. 0 \<le> i \<and> i < n}"
proof -
  have "set (py_range n) = int ` {0..<nat n}"
    by (simp add: py_range_def)
  also have "\<dots> = {i. 0 \<le> i \<and> i < n}"
  proof (intro set_eqI iffI)
    fix i assume "i \<in> int ` {0..<nat n}"
    then show "i \<in> {i. 0 \<le> i \<and> i < n}" by auto
  next
    fix i assume "i \<in> {i. 0 \<le> i \<and> i < n}"
    then have "i = int (nat i)" "nat i \<in> {0..<nat n}" by auto
    then show "i \<in> int ` {0..<nat n}" by (rule image_eqI)
  qed
  finally show ?thesis .
qed

lemma distinct_py_range: "distinct (py_range n)"
  by (simp add: py_range_def distinct_map inj_on_def)

lemma length_py_range: "length (py_range n) = nat n"
  by (simp add: py_range_def)

lemma card_py_range: "card {j. 0 \<le> j \<and> j < n} = nat n"
  using distinct_card [OF distinct_py_range, of n] by (simp add: length_py_range set_py_range)

lemma not_self_adjacent: "(x, y) \<notin> set (get_adjacent_positions x y cols rows)"
  by (auto simp: get_adjacent_positions_def)

lemma is_adjacent_upd_self:
  "is_adjacent_to_friend x y s (a((x, y) \<mapsto> t)) fg cols rows = is_adjacent_to_friend x y s a fg cols rows"
proof -
  have "\<forall>adj \<in> set (get_adjacent_positions x y cols rows). (a((x, y) \<mapsto> t)) adj = a adj"
    using not_self_adjacent [of x y cols rows] by auto
  then show ?thesis
    unfolding is_adjacent_to_friend_def
    by (auto simp: list_ex_iff split: option.splits)
qed

lemma cell_of_inj: "cell_of cols i = cell_of cols j \<Longrightarrow> i = j"
proof -
  assume "cell_of cols i = cell_of cols j"
  then have "i mod cols = j mod cols" "i div cols = j div cols"
    by (simp_all add: cell_of_def)
  then have "cols * (i div cols) + i mod cols = cols * (j div cols) + j mod cols"
    by simp
  then show "i = j" by (simp only: mult_div_mod_eq)
qed

lemma find_non_adjacent_position_Some:
  assumes "find_non_adjacent_position s a fg cols rows = Some (x, y, n)"
  shows "0 \<le> n - 1 \<and> n - 1 < cols * rows \<and> (x, y) = cell_of cols (n - 1) \<and> a (x, y) = None
    \<and> (is_adjacent_to_friend x y s a fg cols rows \<longrightarrow>
         (\<forall>j. 0 \<le> j \<and> j < cols * rows \<and> a (cell_of cols j) = None \<longrightarrow>
              is_adjacent_to_friend (j mod cols) (j div cols) s a fg cols rows))"
proof (cases "find (\<lambda>idx. a (idx mod cols, idx div cols) = None
                        \<and> \<not> is_adjacent_to_friend (idx mod cols) (idx div cols) s a fg cols rows)
             (py_range (cols * rows))")
  case (Some idx)
  then have r: "x = idx mod cols" "y = idx div cols" "n = idx + 1"
    using assms by (simp_all add: find_non_adjacent_position_def Let_def)
  from Some have "idx \<in> set (py_range (cols * rows))"
    and "a (idx mod cols, idx div cols) = None
         \<and> \<not> is_adjacent_to_friend (idx mod cols) (idx div cols) s a fg cols rows"
    by (auto simp: find_Some_iff in_set_conv_nth)
  then show ?thesis
    using r by (simp add: set_py_range cell_of_def)
next
  case None
  then have all: "\<forall>j. 0 \<le> j \<and> j < cols * rows \<and> a (cell_of cols j) = None \<longrightarrow>
              is_adjacent_to_friend (j mod cols) (j div cols) s a fg cols rows"
    by (auto simp: find_None_iff set_py_range cell_of_def)
  from None assms obtain idx where
    f: "find (\<lambda>idx. a (idx mod cols, idx div cols) = None) (py_range (cols * rows)) = Some idx"
    and r: "x = idx mod cols" "y = idx div cols" "n = idx + 1"
    by (auto simp: find_non_adjacent_position_def Let_def split: option.splits)
  from f have "idx \<in> set (py_range (cols * rows))" "a (idx mod cols, idx div cols) = None"
    by (auto simp: find_Some_iff in_set_conv_nth)
  then show ?thesis
    using r all by (simp add: set_py_range cell_of_def)
qed

lemma find_non_adjacent_position_None:
  "find_non_adjacent_position s a fg cols rows = None
   \<longleftrightarrow> (\<forall>j. 0 \<le> j \<and> j < cols * rows \<longrightarrow> a (cell_of cols j) \<noteq> None)"
proof
  assume "find_non_adjacent_position s a fg cols rows = None"
  then have "find (\<lambda>idx. a (idx mod cols, idx div cols) = None) (py_range (cols * rows)) = None"
    by (auto simp: find_non_adjacent_position_def Let_def split: option.splits)
  then show "\<forall>j. 0 \<le> j \<and> j < cols * rows \<longrightarrow> a (cell_of cols j) \<noteq> None"
    by (auto simp: find_None_iff set_py_range cell_of_def)
next
  assume h: "\<forall>j. 0 \<le> j \<and> j < cols * rows \<longrightarrow> a (cell_of cols j) \<noteq> None"
  then have 1: "find (\<lambda>idx. a (idx mod cols, idx div cols) = None) (py_range (cols * rows)) = None"
    by (auto simp: find_None_iff set_py_range cell_of_def)
  from h have 2: "find (\<lambda>idx. a (idx mod cols, idx div cols) = None
                        \<and> \<not> is_adjacent_to_friend (idx mod cols) (idx div cols) s a fg cols rows)
             (py_range (cols * rows)) = None"
    by (auto simp: find_None_iff set_py_range cell_of_def)
  show "find_non_adjacent_position s a fg cols rows = None"
    by (simp add: find_non_adjacent_position_def Let_def 1 2)
qed

lemma assigned_after_snoc:
  "assigned_after (seats @ [s]) = (assigned_after seats)((seat_x s, seat_y s) \<mapsto> seat_student_id s)"
  by (simp add: assigned_after_def)

lemma dom_assigned_after: "dom (assigned_after seats) = (\<lambda>s. (seat_x s, seat_y s)) ` set seats"
proof (induction seats rule: rev_induct)
  case Nil
  show ?case by (simp add: assigned_after_def)
next
  case (snoc s seats)
  have "dom (assigned_after (seats @ [s])) = insert (seat_x s, seat_y s) (dom (assigned_after seats))"
    by (simp add: assigned_after_snoc)
  with snoc show ?case by auto
qed

lemma seats_inv_cells:
  assumes "seats_inv cols rows seats"
  shows "(\<lambda>s. (seat_x s, seat_y s)) ` set seats = cell_of cols ` ((\<lambda>s. seat_no s - 1) ` set seats)"
proof -
  have "(\<lambda>s. (seat_x s, seat_y s)) ` set seats = (\<lambda>s. cell_of cols (seat_no s - 1)) ` set seats"
    using assms unfolding seats_inv_def by (intro image_cong) auto
  then show ?thesis by (simp add: image_image)
qed

lemma seats_inv_full:
  assumes inv: "seats_inv cols rows seats"
  shows "(\<forall>j. 0 \<le> j \<and> j < cols * rows \<longrightarrow> assigned_after seats (cell_of cols j) \<noteq> None)
     \<longleftrightarrow> length seats = nat (cols * rows)"
proof -
  let ?I = "(\<lambda>s. seat_no s - 1) ` set seats"
  let ?R = "{j. 0 \<le> j \<and> j < cols * rows}"
  have fin: "finite ?R" by simp
  have cardR: "card ?R = nat (cols * rows)"
    by (rule card_py_range)
  have sub: "?I \<subseteq> ?R" using inv by (auto simp: seats_inv_def)
  have "distinct (map (\<lambda>s. seat_no s - 1) seats)"
    using inv by (auto simp: seats_inv_def distinct_map inj_on_def)
  then have cardI: "card ?I = length seats"
    using distinct_card [of "map (\<lambda>s. seat_no s - 1) seats"] by simp
  have dom: "dom (assigned_after seats) = cell_of cols ` ?I"
    using dom_assigned_after seats_inv_cells [OF inv] by simp
  have "(\<forall>j. 0 \<le> j \<and> j < cols * rows \<longrightarrow> assigned_after seats (cell_of cols j) \<noteq> None)
      \<longleftrightarrow> (\<forall>j \<in> ?R. cell_of cols j \<in> cell_of cols ` ?I)"
    unfolding dom [symmetric] by (auto simp: domIff)
  also have "\<dots> \<longleftrightarrow> ?R \<subseteq> ?I"
    using cell_of_inj by blast
  also have "\<dots> \<longleftrightarrow> ?I = ?R"
    using sub by auto
  also have "\<dots> \<longleftrightarrow> card ?I = card ?R"
  proof
    assume "?I = ?R" then show "card ?I = card ?R" by simp
  next
    assume "card ?I = card ?R"
    with fin sub show "?I = ?R" by (rule card_subset_eq)
  qed
  finally show ?thesis
    by (simp add: cardI cardR)
qed

lemma seats_inv_length: "seats_inv cols rows seats \<Longrightarrow> length seats \<le> nat (cols * rows)"
proof -
  assume inv: "seats_inv cols rows seats"
  let ?I = "(\<lambda>s. seat_no s - 1) ` set seats"
  have "distinct (map (\<lambda>s. seat_no s - 1) seats)"
    using inv by (auto simp: seats_inv_def distinct_map inj_on_def)
  then have "card ?I = length seats"
    using distinct_card [of "map (\<lambda>s. seat_no s - 1) seats"] by simp
  moreover have "?I \<subseteq> {j. 0 \<le> j \<and> j < cols * rows}"
    using inv by (auto simp: seats_inv_def)
  then have "card ?I \<le> card {j. 0 \<le> j \<and> j < cols * rows}"
    by (intro card_mono) auto
  ultimately show ?thesis by (simp add: card_py_range)
qed

lemma adjacent_only_if_forced_snoc:
  assumes "adjacent_only_if_forced fg cols rows seats"
    and "is_adjacent_to_friend (seat_x s) (seat_y s) (seat_student_id s) (assigned_after seats) fg cols rows
        \<longrightarrow> (\<forall>j. 0 \<le> j \<and> j < cols * rows \<and> assigned_after seats (cell_of cols j) = None
               \<longrightarrow> is_adjacent_to_friend (j mod cols) (j div cols) (seat_student_id s)
                     (assigned_after seats) fg cols rows)"
  shows "adjacent_only_if_forced fg cols rows (seats @ [s])"
  unfolding adjacent_only_if_forced_def
proof (intro allI impI)
  fix k j
  assume k: "k < length (seats @ [s])"
  assume adj: "is_adjacent_to_friend (seat_x ((seats @ [s]) ! k)) (seat_y ((seats @ [s]) ! k))
        (seat_student_id ((seats @ [s]) ! k)) (assigned_after (take k (seats @ [s]))) fg cols rows"
  assume j: "0 \<le> j \<and> j < cols * rows \<and> assigned_after (take k (seats @ [s])) (cell_of cols j) = None"
  show "is_adjacent_to_friend (j mod cols) (j div cols) (seat_student_id ((seats @ [s]) ! k))
                     (assigned_after (take k (seats @ [s]))) fg cols rows"
  proof (cases "k < length seats")
    case True
    then have "(seats @ [s]) ! k = seats ! k" "take k (seats @ [s]) = take k seats"
      by (simp_all add: nth_append)
    with assms(1) True adj j show ?thesis
      unfolding adjacent_only_if_forced_def by simp
  next
    case False
    with k have "k = length seats" by simp
    then have "(seats @ [s]) ! k = s" "take k (seats @ [s]) = seats"
      by simp_all
    with assms(2) adj j show ?thesis by simp
  qed
qed

lemma seats_inv_snoc:
  assumes inv: "seats_inv cols rows seats"
    and f: "find_non_adjacent_position stu a fg cols rows = Some (x, y, n)"
    and a: "a = assigned_after seats"
  shows "seats_inv cols rows (seats @ [make_seat x y stu n info])"
proof -
  note F = find_non_adjacent_position_Some [OF f]
  note n1 = F [THEN conjunct1]
  note n2 = F [THEN conjunct2, THEN conjunct1]
  note n3 = F [THEN conjunct2, THEN conjunct2, THEN conjunct1]
  note n4 = F [THEN conjunct2, THEN conjunct2, THEN conjunct2, THEN conjunct1]
  have new: "n \<notin> seat_no ` set seats"
  proof
    assume "n \<in> seat_no ` set seats"
    then obtain s where s: "s \<in> set seats" "seat_no s = n" by auto
    with inv have "(seat_x s, seat_y s) = cell_of cols (n - 1)"
      unfolding seats_inv_def by blast
    with n3 have "(x, y) = (seat_x s, seat_y s)" by simp
    with s(1) have "(x, y) \<in> (\<lambda>s. (seat_x s, seat_y s)) ` set seats"
      by (rule_tac image_eqI)
    then have "(x, y) \<in> dom a"
      unfolding a dom_assigned_after .
    with n4 show False by (simp add: domIff)
  qed
  let ?s = "make_seat x y stu n info"
  have s: "seat_no ?s = n" "seat_x ?s = x" "seat_y ?s = y"
    by (simp_all add: make_seat_def)
  have 1: "\<forall>s \<in> set (seats @ [?s]). 0 \<le> seat_no s - 1 \<and> seat_no s - 1 < cols * rows
         \<and> (seat_x s, seat_y s) = cell_of cols (seat_no s - 1)"
  proof
    fix t assume "t \<in> set (seats @ [?s])"
    then consider "t \<in> set seats" | "t = ?s" by auto
    then show "0 \<le> seat_no t - 1 \<and> seat_no t - 1 < cols * rows
         \<and> (seat_x t, seat_y t) = cell_of cols (seat_no t - 1)"
    proof cases
      case 1
      with inv show ?thesis unfolding seats_inv_def by blast
    next
      case 2
      show ?thesis unfolding 2 s using n1 n2 n3 by (intro conjI)
    qed
  qed
  have 2: "distinct (map seat_no (seats @ [?s]))"
    using inv new unfolding seats_inv_def by (simp add: s)
  show ?thesis
    unfolding seats_inv_def using 1 2 by (rule conjI)
qed

lemma place_queue_props:
  assumes "seats_inv cols rows seats" and "adjacent_only_if_forced fg cols rows seats"
    and "place_queue room md fg cols rows queue (seats, assigned_after seats, v) = (seats', a', v')"
  shows "seats_inv cols rows seats' \<and> adjacent_only_if_forced fg cols rows seats'
    \<and> a' = assigned_after seats'
    \<and> map seat_student_id seats'
        = map seat_student_id seats @ take (nat (cols * rows) - length seats) queue
    \<and> (\<forall>s \<in> set seats'. s \<in> set seats
          \<or> s = make_seat (seat_x s) (seat_y s) (seat_student_id s) (seat_no s) (md (seat_student_id s)))"
  using assms
proof (induction queue arbitrary: seats v)
  case Nil
  then show ?case by auto
next
  case (Cons stu queue)
  show ?case
  proof (cases "find_non_adjacent_position stu (assigned_after seats) fg cols rows")
    case None
    then have full: "length seats = nat (cols * rows)"
      using seats_inv_full [OF Cons.prems(1)] by (simp add: find_non_adjacent_position_None)
    from None Cons.prems(3)
    have "place_queue room md fg cols rows queue (seats, assigned_after seats, v) = (seats', a', v')"
      by simp
    from Cons.IH [OF Cons.prems(1,2) this] full show ?thesis by simp
  next
    case (Some pos)
    obtain x y n where pos: "pos = (x, y, n)" by (cases pos)
    let ?s = "make_seat x y stu n (md stu)"
    note f = Some [unfolded pos]
    from find_non_adjacent_position_Some [OF f]
    have free: "assigned_after seats (x, y) = None"
      and forced: "is_adjacent_to_friend x y stu (assigned_after seats) fg cols rows \<longrightarrow>
         (\<forall>j. 0 \<le> j \<and> j < cols * rows \<and> assigned_after seats (cell_of cols j) = None \<longrightarrow>
              is_adjacent_to_friend (j mod cols) (j div cols) stu (assigned_after seats) fg cols rows)"
      by blast+
    have inv': "seats_inv cols rows (seats @ [?s])"
      using Cons.prems(1) f by (rule seats_inv_snoc) simp
    have g': "adjacent_only_if_forced fg cols rows (seats @ [?s])"
      using Cons.prems(2) forced by (intro adjacent_only_if_forced_snoc) (simp_all add: make_seat_def)
    have aa: "(assigned_after seats)((x, y) \<mapsto> stu) = assigned_after (seats @ [?s])"
      by (simp add: assigned_after_snoc make_seat_def)
    have notfull: "length seats < nat (cols * rows)"
    proof -
      from find_non_adjacent_position_Some [OF f]
      have "0 \<le> n - 1 \<and> n - 1 < cols * rows \<and> assigned_after seats (cell_of cols (n - 1)) = None"
        by metis
      then have "\<not> (\<forall>j. 0 \<le> j \<and> j < cols * rows \<longrightarrow> assigned_after seats (cell_of cols j) \<noteq> None)"
        by blast
      then have "length seats \<noteq> nat (cols * rows)"
        using seats_inv_full [OF Cons.prems(1)] by blast
      with seats_inv_length [OF Cons.prems(1)] show ?thesis by simp
    qed
    obtain v2 where
      step: "place_queue room md fg cols rows (stu # queue) (seats, assigned_after seats, v)
        = place_queue room md fg cols rows queue (seats @ [?s], assigned_after (seats @ [?s]), v2)"
      using f by (simp add: Let_def aa)
    with Cons.prems(3)
    have "place_queue room md fg cols rows queue (seats @ [?s], assigned_after (seats @ [?s]), v2)
        = (seats', a', v')"
      by simp
    from Cons.IH [OF inv' g' this]
    have r: "seats_inv cols rows seats'" "adjacent_only_if_forced fg cols rows seats'"
      "a' = assigned_after seats'"
      "map seat_student_id seats'
        = map seat_student_id (seats @ [?s]) @ take (nat (cols * rows) - length (seats @ [?s])) queue"
      "\<forall>s \<in> set seats'. s \<in> set (seats @ [?s])
          \<or> s = make_seat (seat_x s) (seat_y s) (seat_student_id s) (seat_no s) (md (seat_student_id s))"
      by blast+
    have t: "take (nat (cols * rows) - length seats) (stu # queue)
        = stu # take (nat (cols * rows) - length (seats @ [?s])) queue"
    proof -
      obtain m where m: "nat (cols * rows) - length seats = Suc m"
        using notfull by (cases "nat (cols * rows) - length seats") simp_all
      then have "nat (cols * rows) - length (seats @ [?s]) = m" by simp
      with m show ?thesis by simp
    qed
    have m: "map seat_student_id seats'
        = map seat_student_id seats @ take (nat (cols * rows) - length seats) (stu # queue)"
      unfolding t using r(4) by (simp add: make_seat_def)
    have e: "\<forall>s \<in> set seats'. s \<in> set seats
          \<or> s = make_seat (seat_x s) (seat_y s) (seat_student_id s) (seat_no s) (md (seat_student_id s))"
      using r(5) by (auto simp: make_seat_def)
    show ?thesis using r(1,2,3) m e by blast
  qed
qed

subsection \<open>Seat placement: queues and rooms\<close>

lemma mset_take_drop_concat:
  "mset (concat (map (take n) qs)) + mset (concat (map (drop n) qs)) = mset (concat qs)"
proof (induction qs)
  case Nil
  show ?case by simp
next
  case (Cons q qs)
  have "mset (take n q) + mset (drop n q) = mset q"
    by (metis append_take_drop_id mset_append)
  with Cons show ?case by (simp add: ac_simps)
qed

lemma mset_round_robin: "mset (round_robin qs) = mset (concat qs)"
proof (induction qs rule: round_robin.induct)
  case (1 queues)
  show ?case
  proof (cases "\<exists>q \<in> set queues. q \<noteq> []")
    case True
    then have "round_robin queues = concat (map (take 1) queues) @ round_robin (map (drop 1) queues)"
      by (subst round_robin.simps) simp
    with 1 [OF True] show ?thesis
      by (simp add: mset_take_drop_concat)
  next
    case False
    then have "round_robin queues = []" by (subst round_robin.simps) simp
    moreover from False have "concat queues = []" by auto
    ultimately show ?thesis by simp
  qed
qed

lemma mset_interleave_groups: "mset (interleave_groups groups) = mset (concat groups)"
proof -
  have c: "concat (filter (\<lambda>grp. grp \<noteq> []) groups) = concat groups"
    by (induction groups) auto
  show ?thesis
  proof (cases "filter (\<lambda>grp. grp \<noteq> []) groups = []")
    case True
    with c show ?thesis by (simp add: interleave_groups_def)
  next
    case False
    then show ?thesis
      by (simp add: interleave_groups_def mset_round_robin c)
  qed
qed

lemma mset_year_groups_fold:
  "mset (concat (map snd (foldl (\<lambda>d student_id. dict_append d (year_of md student_id) [student_id]) d students)))
   = mset (concat (map snd d)) + mset students"
  by (induction students arbitrary: d) (simp_all add: mset_concat_dict_append)

lemma mset_room_queue: "mset (room_queue md students) = mset students"
  by (simp add: room_queue_def mset_interleave_groups year_groups_def mset_year_groups_fold)

lemma length_room_queue: "length (room_queue md students) = length students"
  using mset_room_queue [of md students] by (metis size_mset)

lemma distinct_room_queue: "distinct (room_queue md students) = distinct students"
  using mset_room_queue [of md students] by (metis mset_eq_imp_distinct_iff)

lemma set_room_queue: "set (room_queue md students) = set students"
  using mset_room_queue [of md students] by (metis set_mset_mset)

lemma map_of_dict_set: "map_of (dict_set d k v) = (map_of d)(k \<mapsto> v)"
  by (induction d) (auto simp: fun_eq_iff)

lemma place_queue_violations_irrelevant:
  "fst (place_queue room md fg cols rows queue (seats, a, v))
   = fst (place_queue room md fg cols rows queue (seats, a, v'))"
proof (induction queue arbitrary: seats a v v')
  case Nil
  show ?case by simp
next
  case (Cons stu queue)
  show ?case
  proof (cases "find_non_adjacent_position stu a fg cols rows")
    case None
    then show ?thesis using Cons.IH by simp
  next
    case (Some pos)
    obtain x y n where "pos = (x, y, n)" by (cases pos)
    with Some show ?thesis using Cons.IH by (simp add: Let_def)
  qed
qed

lemma separation_rooms_step:
  "separation_rooms md rc fg ((room, students) # rest) (seating, v)
   = (if students = [] then separation_rooms md rc fg rest (seating, v)
      else separation_rooms md rc fg rest
             (dict_set seating room (separation_seats md rc fg room students),
              snd (snd (place_queue room md fg (fst (room_layout rc room)) (snd (room_layout rc room))
                          (room_queue md students) ([], Map.empty, v)))))"
proof (cases "students = []")
  case True
  then show ?thesis by simp
next
  case False
  obtain cols rows where l: "room_layout rc room = (cols, rows)" by (cases "room_layout rc room")
  obtain seats a v' where p: "place_queue room md fg cols rows (room_queue md students) ([], Map.empty, v)
      = (seats, a, v')"
    by (cases "place_queue room md fg cols rows (room_queue md students) ([], Map.empty, v)") auto
  have "separation_seats md rc fg room students = seats"
    unfolding separation_seats_def l
    using place_queue_violations_irrelevant [of room md fg cols rows "room_queue md students" "[]" Map.empty "[]" v] p
    by simp
  with False l p show ?thesis by simp
qed

lemma separation_rooms_other:
  "room \<notin> fst ` set ra \<Longrightarrow>
   map_of (fst (separation_rooms md rc fg ra (seating, v))) room = map_of seating room"
proof (induction ra arbitrary: seating v)
  case Nil
  show ?case by simp
next
  case (Cons p ra)
  obtain r ss where p: "p = (r, ss)" by (cases p)
  with Cons.prems have ne: "r \<noteq> room" and rest: "room \<notin> fst ` set ra" by auto
  show ?case
    unfolding p separation_rooms_step
    using Cons.IH [OF rest] ne by (simp add: map_of_dict_set)
qed

lemma separation_rooms_lookup:
  "distinct (map fst ra) \<Longrightarrow> (room, students) \<in> set ra \<Longrightarrow> students \<noteq> [] \<Longrightarrow>
   map_of (fst (separation_rooms md rc fg ra (seating, v))) room
     = Some (separation_seats md rc fg room students)"
proof (induction ra arbitrary: seating v)
  case Nil
  then show ?case by simp
next
  case (Cons p ra)
  obtain r ss where p: "p = (r, ss)" by (cases p)
  show ?case
  proof (cases "r = room")
    case True
    with Cons.prems p have ss: "ss = students" and rest: "room \<notin> fst ` set ra"
      by (auto simp: image_iff)
    show ?thesis
      unfolding p separation_rooms_step
      using Cons.prems(3) ss True separation_rooms_other [OF rest]
      by (simp add: map_of_dict_set)
  next
    case False
    with Cons.prems p have "distinct (map fst ra)" "(room, students) \<in> set ra" by auto
    from Cons.IH [OF this Cons.prems(3)] show ?thesis
      unfolding p separation_rooms_step by simp
  qed
qed

lemma separation_seats_props:
  "seats_inv (fst (room_layout rc room)) (snd (room_layout rc room)) (separation_seats md rc fg room students)
   \<and> adjacent_only_if_forced fg (fst (room_layout rc room)) (snd (room_layout rc room))
        (separation_seats md rc fg room students)
   \<and> map seat_student_id (separation_seats md rc fg room students)
       = take (nat (fst (room_layout rc room) * snd (room_layout rc room))) (room_queue md students)
   \<and> (\<forall>s \<in> set (separation_seats md rc fg room students).
         s = make_seat (seat_x s) (seat_y s) (seat_student_id s) (seat_no s) (md (seat_student_id s)))"
proof -
  let ?cols = "fst (room_layout rc room)" and ?rows = "snd (room_layout rc room)"
  obtain seats a v' where p: "place_queue room md fg ?cols ?rows (room_queue md students)
      ([], assigned_after [], []) = (seats, a, v')"
    by (cases "place_queue room md fg ?cols ?rows (room_queue md students) ([], assigned_after [], [])") auto
  have e: "assigned_after [] = Map.empty" by (simp add: assigned_after_def)
  have s: "separation_seats md rc fg room students = seats"
    using p by (simp add: separation_seats_def e)
  have i: "seats_inv ?cols ?rows []" by (simp add: seats_inv_def)
  have g: "adjacent_only_if_forced fg ?cols ?rows []" by (simp add: adjacent_only_if_forced_def)
  from place_queue_props [OF i g p] show ?thesis
    unfolding s by simp
qed

subsection \<open>Seat placement: the checkerboard cells\<close>

lemma fill_positions_False:
  "length acc < n \<Longrightarrow>
   fill_positions False n cells acc = (n \<le> length acc + length cells, take n (acc @ cells))"
proof (induction cells arbitrary: acc)
  case Nil
  then show ?case by simp
next
  case (Cons c cells)
  show ?case
  proof (cases "n \<le> length (acc @ [c])")
    case True
    with Cons.prems have "length acc + 1 = n" by simp
    then have "take n (acc @ c # cells) = acc @ [c]" by auto
    with True show ?thesis by simp
  next
    case False
    then have "length (acc @ [c]) < n" by simp
    from Cons.IH [OF this] False show ?thesis by simp
  qed
qed

lemma fill_positions_True:
  "distinct cells \<Longrightarrow> set cells \<inter> set acc = {} \<Longrightarrow>
   fill_positions True n cells acc = fill_positions False n cells acc"
proof (induction cells arbitrary: acc)
  case Nil
  show ?case by simp
next
  case (Cons c cells)
  from Cons.prems have c: "c \<notin> set acc" and d: "distinct cells"
    and i: "set cells \<inter> set (acc @ [c]) = {}"
    by auto
  from Cons.IH [OF d i] c show ?case by simp
qed

lemma set_py_range2:
  "set (py_range2 s c) = {col. s \<le> col \<and> col < c \<and> (col - s) mod 2 = 0}"
proof (intro set_eqI iffI)
  fix col assume "col \<in> set (py_range2 s c)"
  then obtain k where k: "k < nat ((c - s + 1) div 2)" "col = s + 2 * int k"
    by (auto simp: py_range2_def)
  then have "int k < (c - s + 1) div 2" by linarith
  then have "2 * int k + 2 \<le> c - s + 1" by linarith
  with k show "col \<in> {col. s \<le> col \<and> col < c \<and> (col - s) mod 2 = 0}" by simp
next
  fix col assume "col \<in> {col. s \<le> col \<and> col < c \<and> (col - s) mod 2 = 0}"
  then have h: "s \<le> col" "col < c" "(col - s) mod 2 = 0" by simp_all
  define k where "k = nat ((col - s) div 2)"
  have "col - s = 2 * ((col - s) div 2)" using h(3) by presburger
  then have e: "col = s + 2 * int k" using h(1) by (simp add: k_def)
  have "(col - s) div 2 < (c - s + 1) div 2" using h by presburger
  then have "k < nat ((c - s + 1) div 2)" using h(1) by (simp add: k_def)
  with e show "col \<in> set (py_range2 s c)" by (auto simp: py_range2_def)
qed

lemma distinct_py_range2: "distinct (py_range2 s c)"
  by (simp add: py_range2_def distinct_map inj_on_def)

lemma length_py_range2: "length (py_range2 s c) = nat ((c - s + 1) div 2)"
  by (simp add: py_range2_def)

lemma distinct_concat_map:
  "distinct xs \<Longrightarrow> (\<forall>x \<in> set xs. distinct (f x)) \<Longrightarrow>
   (\<forall>x \<in> set xs. \<forall>y \<in> set xs. x \<noteq> y \<longrightarrow> set (f x) \<inter> set (f y) = {}) \<Longrightarrow>
   distinct (concat (map f xs))"
proof (induction xs)
  case Nil
  show ?case by simp
next
  case (Cons x xs)
  have "distinct (concat (map f xs))" using Cons by auto
  moreover have "distinct (f x)" using Cons.prems by simp
  moreover have "set (f x) \<inter> set (concat (map f xs)) = {}"
    using Cons.prems by fastforce
  ultimately show ?case by simp
qed

lemma first_pass_cells_eq: "first_pass_cells cols rows = pass_cells (\<lambda>row. row mod 2) cols rows"
  by (simp add: first_pass_cells_def pass_cells_def)

lemma second_pass_cells_eq: "second_pass_cells cols rows = pass_cells (\<lambda>row. 1 - row mod 2) cols rows"
  by (simp add: second_pass_cells_def pass_cells_def)

lemma set_pass_cells:
  "set (pass_cells start cols rows)
   = {(col, row, row * cols + col + 1) | col row.
        0 \<le> row \<and> row < rows \<and> start row \<le> col \<and> col < cols \<and> (col - start row) mod 2 = 0}"
  by (auto simp: pass_cells_def set_py_range set_py_range2)

lemma distinct_pass_cells: "distinct (pass_cells start cols rows)"
  unfolding pass_cells_def
proof (rule distinct_concat_map)
  show "distinct (py_range rows)" by (rule distinct_py_range)
  show "\<forall>row \<in> set (py_range rows).
      distinct (map (\<lambda>col. (col, row, row * cols + col + 1)) (py_range2 (start row) cols))"
    by (simp add: distinct_map distinct_py_range2 inj_on_def)
  show "\<forall>x \<in> set (py_range rows). \<forall>y \<in> set (py_range rows). x \<noteq> y \<longrightarrow>
      set (map (\<lambda>col. (col, x, x * cols + col + 1)) (py_range2 (start x) cols))
      \<inter> set (map (\<lambda>col. (col, y, y * cols + col + 1)) (py_range2 (start y) cols)) = {}"
    by auto
qed

lemma length_pass_cells:
  "length (pass_cells start cols rows)
   = sum_list (map (\<lambda>row. nat ((cols - start row + 1) div 2)) (py_range rows))"
  by (simp add: pass_cells_def length_concat comp_def length_py_range2)

lemma length_both_passes:
  assumes "0 \<le> cols"
  shows "length (first_pass_cells cols rows) + length (second_pass_cells cols rows) = nat rows * nat cols"
proof -
  have row: "nat ((cols - row mod 2 + 1) div 2) + nat ((cols - (1 - row mod 2) + 1) div 2) = nat cols"
    for row :: int
  proof -
    have a: "(cols + 1) div 2 + cols div 2 = cols" by presburger
    have n: "0 \<le> (cols + 1) div 2" "0 \<le> cols div 2" using assms by simp_all
    have s: "nat ((cols + 1) div 2) + nat (cols div 2) = nat cols"
      using a n by (simp add: nat_add_distrib [symmetric])
    have "row mod 2 = 0 \<or> row mod 2 = 1" by presburger
    then consider "row mod 2 = 0" | "row mod 2 = 1" by blast
    then show ?thesis
    proof cases
      case 1
      then show ?thesis using s by simp
    next
      case 2
      then show ?thesis using s by (simp add: add.commute)
    qed
  qed
  have "length (first_pass_cells cols rows) + length (second_pass_cells cols rows)
      = sum_list (map (\<lambda>row. nat ((cols - row mod 2 + 1) div 2) + nat ((cols - (1 - row mod 2) + 1) div 2))
          (py_range rows))"
    by (simp add: first_pass_cells_eq second_pass_cells_eq length_pass_cells sum_list_addf)
  also have "\<dots> = sum_list (map (\<lambda>row. nat cols) (py_range rows))"
    by (simp only: row)
  also have "\<dots> = nat rows * nat cols"
    by (simp add: sum_list_triv length_py_range)
  finally show ?thesis .
qed

lemma passes_disjoint: "set (first_pass_cells cols rows) \<inter> set (second_pass_cells cols rows) = {}"
proof -
  have "False" if "(col - row mod 2) mod 2 = 0" "(col - (1 - row mod 2)) mod 2 = 0" for col row :: int
    using that by presburger
  then show ?thesis
    unfolding first_pass_cells_eq second_pass_cells_eq set_pass_cells by fastforce
qed

lemma passes_valid:
  "p \<in> set (first_pass_cells cols rows @ second_pass_cells cols rows) \<Longrightarrow> valid_pos cols rows p"
proof -
  assume "p \<in> set (first_pass_cells cols rows @ second_pass_cells cols rows)"
  then obtain col row s where "p = (col, row, row * cols + col + 1)" "0 \<le> row" "row < rows"
    "s \<le> col" "col < cols" "s = row mod 2 \<or> s = 1 - row mod 2"
    unfolding first_pass_cells_eq second_pass_cells_eq set_append set_pass_cells by blast
  moreover from this have "0 \<le> s" by presburger
  ultimately show ?thesis by (simp add: valid_pos_def)
qed

subsection \<open>Seat placement: spread positions\<close>

lemma row_major_valid:
  assumes "0 < cols" "0 \<le> i" "i < cols * rows"
  shows "valid_pos cols rows (i mod cols, i div cols, i + 1)"
proof -
  have "i div cols < rows"
  proof (rule ccontr)
    assume "\<not> i div cols < rows"
    then have "rows \<le> i div cols" by simp
    then have "cols * rows \<le> cols * (i div cols)"
      using assms(1) by (simp add: mult_left_mono)
    also have "\<dots> \<le> cols * (i div cols) + i mod cols"
    proof -
      have "0 \<le> i mod cols" using assms(1) by simp
      then show ?thesis by linarith
    qed
    also have "\<dots> = i" by simp
    finally show False using assms(3) by simp
  qed
  moreover have "0 \<le> i div cols" using assms by (simp add: pos_imp_zdiv_nonneg_iff)
  moreover have "i = i div cols * cols + i mod cols" by simp
  ultimately show ?thesis
    using assms(1) by (simp add: valid_pos_def)
qed

lemma row_major_cells_props:
  assumes "0 < cols" "n \<le> cols * rows"
  shows "length (row_major_cells cols n) = nat n \<and> distinct (row_major_cells cols n)
     \<and> (\<forall>p \<in> set (row_major_cells cols n). valid_pos cols rows p)"
proof -
  have "distinct (row_major_cells cols n)"
    unfolding row_major_cells_def
    by (simp add: distinct_map distinct_py_range inj_on_def)
  moreover have "\<forall>p \<in> set (row_major_cells cols n). valid_pos cols rows p"
    using assms by (auto simp: row_major_cells_def set_py_range intro!: row_major_valid)
  ultimately show ?thesis by (simp add: row_major_cells_def length_py_range)
qed

lemma get_spread_positions_full:
  "cols * rows \<le> int n \<Longrightarrow> get_spread_positions n cols rows = Inr (row_major_cells cols (cols * rows))"
  by (simp add: get_spread_positions_def row_major_cells_def Let_def)

lemma get_spread_positions_sequential:
  "int n < cols * rows \<Longrightarrow> 0 < n \<Longrightarrow> \<not> 2 \<le> max 1 (cols * rows div int n) \<Longrightarrow>
   get_spread_positions n cols rows = Inr (row_major_cells cols (int n))"
proof -
  assume h: "int n < cols * rows" "0 < n" "\<not> 2 \<le> max 1 (cols * rows div int n)"
  have "length [(i mod cols, i div cols, i + 1). i \<leftarrow> py_range (int n)] = n"
    by (simp add: length_py_range)
  then have "take n [(i mod cols, i div cols, i + 1). i \<leftarrow> py_range (int n)]
      = [(i mod cols, i div cols, i + 1). i \<leftarrow> py_range (int n)]"
    by simp
  with h show ?thesis
    by (simp add: get_spread_positions_def row_major_cells_def Let_def min_def)
qed

lemma get_spread_positions_checkerboard:
  assumes "int n < cols * rows" "0 < n" "2 \<le> max 1 (cols * rows div int n)"
  shows "get_spread_positions n cols rows
     = Inr (take n (first_pass_cells cols rows @ second_pass_cells cols rows))"
proof -
  let ?f = "first_pass_cells cols rows" and ?s = "second_pass_cells cols rows"
  have f1: "fill_positions False n ?f [] = (n \<le> length ?f, take n ?f)"
    using fill_positions_False [of "[]" n ?f] assms(2) by simp
  have sp: "2 \<le> cols * rows div int n" using assms(3) by simp
  have c: "\<not> cols * rows \<le> int n" "n \<noteq> 0" using assms(1,2) by simp_all
  show ?thesis
  proof (cases "n \<le> length ?f")
    case True
    with f1 sp c show ?thesis
      by (simp add: get_spread_positions_def Let_def)
  next
    case False
    then have t: "take n ?f = ?f" and l: "length ?f < n" by simp_all
    have d: "distinct ?s" by (simp add: second_pass_cells_eq distinct_pass_cells)
    have i: "set ?s \<inter> set ?f = {}" using passes_disjoint [of cols rows] by blast
    have f2: "fill_positions True n ?s ?f = (n \<le> length ?f + length ?s, take n (?f @ ?s))"
      using fill_positions_True [OF d i] fill_positions_False [OF l] by simp
    from False f1 f2 t sp c l show ?thesis
      by (simp add: get_spread_positions_def Let_def min_def)
  qed
qed

lemma get_spread_positions_Inr:
  "0 < n \<Longrightarrow> \<exists>ps. get_spread_positions n cols rows = Inr ps"
  using get_spread_positions_full [of cols rows n] get_spread_positions_sequential [of n cols rows]
    get_spread_positions_checkerboard [of n cols rows]
  by (metis linorder_not_le)

lemma get_spread_positions_ok:
  assumes "0 < cols" "0 < n" "int n \<le> cols * rows"
  shows "\<exists>ps. get_spread_positions n cols rows = Inr ps \<and> length ps = n \<and> distinct ps
     \<and> (\<forall>p \<in> set ps. valid_pos cols rows p)"
proof -
  consider (full) "int n = cols * rows"
    | (seq) "int n < cols * rows" "\<not> 2 \<le> max 1 (cols * rows div int n)"
    | (chk) "int n < cols * rows" "2 \<le> max 1 (cols * rows div int n)"
    using assms(3) by linarith
  then show ?thesis
  proof cases
    case full
    then have "get_spread_positions n cols rows = Inr (row_major_cells cols (cols * rows))"
      by (intro get_spread_positions_full) simp
    moreover have "length (row_major_cells cols (cols * rows)) = nat (cols * rows)
        \<and> distinct (row_major_cells cols (cols * rows))
        \<and> (\<forall>p \<in> set (row_major_cells cols (cols * rows)). valid_pos cols rows p)"
      using assms(1) by (intro row_major_cells_props) simp_all
    ultimately show ?thesis using full by (metis nat_int)
  next
    case seq
    then have "get_spread_positions n cols rows = Inr (row_major_cells cols (int n))"
      using assms(2) by (intro get_spread_positions_sequential)
    moreover have "length (row_major_cells cols (int n)) = nat (int n)
        \<and> distinct (row_major_cells cols (int n))
        \<and> (\<forall>p \<in> set (row_major_cells cols (int n)). valid_pos cols rows p)"
      using assms(1,3) by (intro row_major_cells_props)
    ultimately show ?thesis by simp
  next
    case chk
    let ?f = "first_pass_cells cols rows" and ?s = "second_pass_cells cols rows"
    have g: "get_spread_positions n cols rows = Inr (take n (?f @ ?s))"
      using chk assms(2) by (intro get_spread_positions_checkerboard)
    have "0 < rows"
      using assms chk(1) by (metis int_ops(1) of_nat_less_iff less_trans zero_less_mult_pos)
    then have "length (?f @ ?s) = nat (cols * rows)"
      using assms(1) length_both_passes [of cols rows]
      by (simp add: nat_mult_distrib mult.commute)
    then have len: "length (take n (?f @ ?s)) = n"
      using chk(1) by simp
    have "distinct (?f @ ?s)"
      using passes_disjoint [of cols rows]
      by (simp add: first_pass_cells_eq second_pass_cells_eq distinct_pass_cells)
    then have dis: "distinct (take n (?f @ ?s))" by (rule distinct_take)
    have val: "\<forall>p \<in> set (take n (?f @ ?s)). valid_pos cols rows p"
      using passes_valid by (meson in_set_takeD)
    show ?thesis using g len dis val by blast
  qed
qed

subsection \<open>Seat placement: the seats of one room\<close>

lemma spread_rooms_step:
  "spread_rooms md rc ((room, students) # rest) seating
   = (if students = [] then spread_rooms md rc rest seating
      else spread_rooms md rc rest (dict_set seating room (spread_seats md rc room students)))"
proof (cases "students = []")
  case True
  then show ?thesis by simp
next
  case False
  then have "0 < length (room_queue md students)"
    by (simp add: length_room_queue)
  from get_spread_positions_Inr [OF this]
  obtain ps where ps: "get_spread_positions (length (room_queue md students))
      (fst (room_layout rc room)) (snd (room_layout rc room)) = Inr ps"
    by blast
  obtain cols rows where l: "room_layout rc room = (cols, rows)" by (cases "room_layout rc room")
  from False ps l show ?thesis
    by (simp add: spread_seats_def)
qed

lemma spread_rooms_Inr: "\<exists>seating'. spread_rooms md rc ra seating = Inr seating'"
proof (induction ra arbitrary: seating)
  case Nil
  show ?case by simp
next
  case (Cons p ra)
  obtain r ss where p: "p = (r, ss)" by (cases p)
  show ?case unfolding p spread_rooms_step using Cons.IH by (simp del: spread_rooms.simps)
qed

lemma spread_rooms_other:
  "room \<notin> fst ` set ra \<Longrightarrow> spread_rooms md rc ra seating = Inr seating' \<Longrightarrow>
   map_of seating' room = map_of seating room"
proof (induction ra arbitrary: seating)
  case Nil
  then show ?case by simp
next
  case (Cons p ra)
  obtain r ss where p: "p = (r, ss)" by (cases p)
  with Cons.prems have ne: "r \<noteq> room" and rest: "room \<notin> fst ` set ra" by auto
  show ?case
  proof (cases "ss = []")
    case True
    with Cons.prems(2) p have "spread_rooms md rc ra seating = Inr seating'"
      by (simp add: spread_rooms_step del: spread_rooms.simps)
    from Cons.IH [OF rest this] show ?thesis .
  next
    case False
    with Cons.prems(2) p
    have "spread_rooms md rc ra (dict_set seating r (spread_seats md rc r ss)) = Inr seating'"
      by (simp add: spread_rooms_step del: spread_rooms.simps)
    from Cons.IH [OF rest this] ne show ?thesis by (simp add: map_of_dict_set)
  qed
qed

lemma spread_rooms_lookup:
  "distinct (map fst ra) \<Longrightarrow> (room, students) \<in> set ra \<Longrightarrow>
   spread_rooms md rc ra seating = Inr seating' \<Longrightarrow>
   map_of seating' room
     = (if students = [] then map_of seating room else Some (spread_seats md rc room students))"
proof (induction ra arbitrary: seating)
  case Nil
  then show ?case by simp
next
  case (Cons p ra)
  obtain r ss where p: "p = (r, ss)" by (cases p)
  show ?case
  proof (cases "r = room")
    case True
    with Cons.prems p have ss: "ss = students" and rest: "room \<notin> fst ` set ra"
      by (auto simp: image_iff)
    show ?thesis
    proof (cases "students = []")
      case e: True
      with Cons.prems(3) p ss have "spread_rooms md rc ra seating = Inr seating'"
        by (simp add: spread_rooms_step del: spread_rooms.simps)
      from spread_rooms_other [OF rest this] e show ?thesis by simp
    next
      case ne: False
      with Cons.prems(3) p ss True
      have "spread_rooms md rc ra (dict_set seating room (spread_seats md rc room students)) = Inr seating'"
        by (simp add: spread_rooms_step del: spread_rooms.simps)
      from spread_rooms_other [OF rest this] ne show ?thesis by (simp add: map_of_dict_set)
    qed
  next
    case False
    with Cons.prems p have d: "distinct (map fst ra)" and m: "(room, students) \<in> set ra" by auto
    show ?thesis
    proof (cases "ss = []")
      case True
      with Cons.prems(3) p have "spread_rooms md rc ra seating = Inr seating'"
        by (simp add: spread_rooms_step del: spread_rooms.simps)
      from Cons.IH [OF d m this] show ?thesis .
    next
      case ne: False
      with Cons.prems(3) p
      have "spread_rooms md rc ra (dict_set seating r (spread_seats md rc r ss)) = Inr seating'"
        by (simp add: spread_rooms_step del: spread_rooms.simps)
      from Cons.IH [OF d m this] False show ?thesis by (simp add: map_of_dict_set)
    qed
  qed
qed

lemma separation_rooms_lookup_all:
  "distinct (map fst ra) \<Longrightarrow> (room, students) \<in> set ra \<Longrightarrow>
   map_of (fst (separation_rooms md rc fg ra (seating, v))) room
     = (if students = [] then map_of seating room else Some (separation_seats md rc fg room students))"
proof (induction ra arbitrary: seating v)
  case Nil
  then show ?case by simp
next
  case (Cons p ra)
  obtain r ss where p: "p = (r, ss)" by (cases p)
  show ?case
  proof (cases "r = room")
    case True
    with Cons.prems p have ss: "ss = students" and rest: "room \<notin> fst ` set ra"
      by (auto simp: image_iff)
    show ?thesis
      unfolding p separation_rooms_step
      using ss True separation_rooms_other [OF rest]
      by (simp add: map_of_dict_set)
  next
    case False
    with Cons.prems p have "distinct (map fst ra)" "(room, students) \<in> set ra" by auto
    from Cons.IH [OF this] False show ?thesis
      unfolding p separation_rooms_step by (simp add: map_of_dict_set)
  qed
qed

lemma assign_seats_in_room_lookup:
  assumes "distinct (map fst ra)" "(room, students) \<in> set ra"
  shows "\<exists>seating. assign_seats_in_room db ra md rc fg = Inr seating
     \<and> dict_get seating room = room_seats md rc fg room students"
proof (cases "fg \<noteq> None \<and> fg \<noteq> Some []")
  case True
  then obtain g where g: "fg = Some g" "g \<noteq> []" by auto
  let ?seating = "fst (separation_rooms md rc g ra ([], []))"
  have "assign_seats_in_room db ra md rc fg = Inr ?seating"
    using g by (simp add: assign_seats_in_room_def assign_seats_with_separation_def)
  moreover have "dict_get ?seating room = room_seats md rc fg room students"
    using separation_rooms_lookup_all [OF assms, of md rc g "[]" "[]"] g
    by (simp add: dict_get_def room_seats_def)
  ultimately show ?thesis by blast
next
  case False
  then have e: "assign_seats_in_room db ra md rc fg = spread_rooms md rc ra []"
    by (auto simp: assign_seats_in_room_def)
  from spread_rooms_Inr obtain seating where s: "spread_rooms md rc ra [] = Inr seating"
    by blast
  have "dict_get seating room = room_seats md rc fg room students"
    using spread_rooms_lookup [OF assms s] False
    by (auto simp: dict_get_def room_seats_def split: option.splits)
  with e s show ?thesis by simp
qed

subsection \<open>Seat placement: properties of the seats of one room\<close>

lemma valid_pos_cell:
  assumes "0 < cols" "valid_pos cols rows (x, y, n)"
  shows "(x, y) = cell_of cols (n - 1)"
proof -
  from assms(2) have h: "0 \<le> x" "x < cols" "n - 1 = y * cols + x"
    by (simp_all add: valid_pos_def)
  have "(y * cols + x) mod cols = x" using h(1,2) by simp
  moreover have "(y * cols + x) div cols = y" using h(1,2) assms(1) by simp
  ultimately show ?thesis by (simp add: cell_of_def h(3))
qed

lemma seats_inv_well_seated:
  assumes c: "0 < cols" and inv: "seats_inv cols rows seats"
  shows "well_seated cols rows seats"
proof -
  have cells: "map (\<lambda>s. (seat_x s, seat_y s)) seats = map (\<lambda>s. cell_of cols (seat_no s - 1)) seats"
    using inv by (auto simp: seats_inv_def)
  have "distinct (map (\<lambda>s. cell_of cols (seat_no s - 1)) seats)"
  proof -
    have "inj_on (\<lambda>s. cell_of cols (seat_no s - 1)) (set seats)"
    proof (rule inj_onI)
      fix s t assume st: "s \<in> set seats" "t \<in> set seats"
        and e: "cell_of cols (seat_no s - 1) = cell_of cols (seat_no t - 1)"
      from e have "seat_no s - 1 = seat_no t - 1" by (rule cell_of_inj)
      then have "seat_no s = seat_no t" by simp
      with inv st show "s = t"
        unfolding seats_inv_def by (metis distinct_map inj_onD)
    qed
    moreover have "distinct seats" using inv unfolding seats_inv_def by (metis distinct_map)
    ultimately show ?thesis by (simp add: distinct_map)
  qed
  then have 1: "distinct (map (\<lambda>s. (seat_x s, seat_y s)) seats)" by (simp only: cells)
  have 2: "distinct (map seat_no seats)" using inv by (simp add: seats_inv_def)
  have 3: "\<forall>s \<in> set seats. 0 \<le> seat_x s \<and> seat_x s < cols \<and> 0 \<le> seat_y s \<and> seat_y s < rows
            \<and> seat_no s = seat_y s * cols + seat_x s + 1"
  proof
    fix s assume "s \<in> set seats"
    with inv have h: "0 \<le> seat_no s - 1" "seat_no s - 1 < cols * rows"
      "(seat_x s, seat_y s) = cell_of cols (seat_no s - 1)"
      by (auto simp: seats_inv_def)
    from row_major_valid [OF c h(1,2)] h(3)
    show "0 \<le> seat_x s \<and> seat_x s < cols \<and> 0 \<le> seat_y s \<and> seat_y s < rows
            \<and> seat_no s = seat_y s * cols + seat_x s + 1"
      by (simp add: valid_pos_def cell_of_def)
  qed
  show ?thesis unfolding well_seated_def using 1 2 3 by blast
qed

lemma zip_seats_props:
  assumes c: "0 < cols" and d: "distinct ps" and v: "\<forall>p \<in> set ps. valid_pos cols rows p"
    and l: "length ps = length queue"
  shows "well_seated cols rows
           (map (\<lambda>(student_id, (x, y, seat_number)). make_seat x y student_id seat_number (md student_id))
              (zip queue ps))
     \<and> map seat_student_id
           (map (\<lambda>(student_id, (x, y, seat_number)). make_seat x y student_id seat_number (md student_id))
              (zip queue ps)) = queue"
proof -
  let ?seats = "map (\<lambda>(student_id, (x, y, seat_number)). make_seat x y student_id seat_number (md student_id))
              (zip queue ps)"
  have ids: "map seat_student_id ?seats = map fst (zip queue ps)"
    by (auto simp: make_seat_def)
  have nos: "map seat_no ?seats = map (\<lambda>p. snd (snd p)) (map snd (zip queue ps))"
    by (auto simp: make_seat_def)
  have cells: "map (\<lambda>s. (seat_x s, seat_y s)) ?seats = map (\<lambda>p. (fst p, fst (snd p))) (map snd (zip queue ps))"
    by (auto simp: make_seat_def)
  have z1: "map fst (zip queue ps) = queue" and z2: "map snd (zip queue ps) = ps"
    using l by simp_all
  have inj_no: "inj_on (\<lambda>p. snd (snd p)) (set ps)"
  proof (rule inj_onI)
    fix p q assume pq: "p \<in> set ps" "q \<in> set ps" and e: "snd (snd p) = snd (snd q)"
    obtain x y n where p: "p = (x, y, n)" by (cases p)
    obtain x' y' n' where q: "q = (x', y', n')" by (cases q)
    from v pq p q have "(x, y) = cell_of cols (n - 1)" "(x', y') = cell_of cols (n' - 1)"
      using valid_pos_cell [OF c] by blast+
    moreover from e p q have "n = n'" by simp
    ultimately have "(x, y) = (x', y')" by (simp only:)
    with \<open>n = n'\<close> p q show "p = q" by simp
  qed
  have inj_cell: "inj_on (\<lambda>p. (fst p, fst (snd p))) (set ps)"
  proof (rule inj_onI)
    fix p q assume pq: "p \<in> set ps" "q \<in> set ps" and e: "(fst p, fst (snd p)) = (fst q, fst (snd q))"
    obtain x y n where p: "p = (x, y, n)" by (cases p)
    obtain x' y' n' where q: "q = (x', y', n')" by (cases q)
    from v pq p q have "n = y * cols + x + 1" "n' = y' * cols + x' + 1"
      by (auto simp: valid_pos_def)
    with e p q show "p = q" by simp
  qed
  have 1: "distinct (map (\<lambda>s. (seat_x s, seat_y s)) ?seats)"
    unfolding cells z2 using d inj_cell by (simp add: distinct_map)
  have 2: "distinct (map seat_no ?seats)"
    unfolding nos z2 using d inj_no by (simp add: distinct_map)
  have 3: "\<forall>s \<in> set ?seats. 0 \<le> seat_x s \<and> seat_x s < cols \<and> 0 \<le> seat_y s \<and> seat_y s < rows
            \<and> seat_no s = seat_y s * cols + seat_x s + 1"
  proof
    fix s assume "s \<in> set ?seats"
    then obtain stu x y n where s: "s = make_seat x y stu n (md stu)" and "(stu, (x, y, n)) \<in> set (zip queue ps)"
      by auto
    then have "(x, y, n) \<in> set ps" by (meson in_set_zipE)
    with v have "valid_pos cols rows (x, y, n)" by blast
    then show "0 \<le> seat_x s \<and> seat_x s < cols \<and> 0 \<le> seat_y s \<and> seat_y s < rows
            \<and> seat_no s = seat_y s * cols + seat_x s + 1"
      by (simp add: s make_seat_def valid_pos_def)
  qed
  show ?thesis
    unfolding well_seated_def using 1 2 3 ids z1 by simp
qed

lemma spread_seats_props:
  assumes "0 < fst (room_layout rc room)" "students \<noteq> []"
    "int (length students) \<le> fst (room_layout rc room) * snd (room_layout rc room)"
  shows "well_seated (fst (room_layout rc room)) (snd (room_layout rc room)) (spread_seats md rc room students)
     \<and> map seat_student_id (spread_seats md rc room students) = room_queue md students"
proof -
  let ?cols = "fst (room_layout rc room)" and ?rows = "snd (room_layout rc room)"
  let ?q = "room_queue md students"
  have n: "0 < length ?q" "int (length ?q) \<le> ?cols * ?rows"
    using assms by (simp_all add: length_room_queue)
  from get_spread_positions_ok [OF assms(1) n]
  obtain ps where ps: "get_spread_positions (length ?q) ?cols ?rows = Inr ps" "length ps = length ?q"
    "distinct ps" "\<forall>p \<in> set ps. valid_pos ?cols ?rows p"
    by blast
  from zip_seats_props [OF assms(1) ps(3,4,2), of md] ps(1) show ?thesis
    by (simp add: spread_seats_def)
qed

lemma spread_seats_full:
  assumes "fst (room_layout rc room) * snd (room_layout rc room) \<le> int (length students)"
  shows "map seat_student_id (spread_seats md rc room students)
     = take (nat (fst (room_layout rc room) * snd (room_layout rc room))) (room_queue md students)"
proof -
  let ?cols = "fst (room_layout rc room)" and ?rows = "snd (room_layout rc room)"
  let ?q = "room_queue md students"
  let ?ps = "row_major_cells ?cols (?cols * ?rows)"
  have "get_spread_positions (length ?q) ?cols ?rows = Inr ?ps"
    using assms by (intro get_spread_positions_full) (simp add: length_room_queue)
  then have "map seat_student_id (spread_seats md rc room students) = map fst (zip ?q ?ps)"
    by (auto simp: spread_seats_def make_seat_def)
  also have "\<dots> = take (length ?ps) ?q"
  proof -
    have "length ?ps \<le> length ?q"
      using assms by (simp add: row_major_cells_def length_py_range length_room_queue)
    then have "min (length ?q) (length ?ps) = length ?ps" by simp
    then show ?thesis by (simp only: map_fst_zip_take)
  qed
  finally show ?thesis
    by (simp add: row_major_cells_def length_py_range)
qed

lemma room_seats_overfull:
  assumes "fst (room_layout rc room) * snd (room_layout rc room) \<le> int (length students)"
  shows "map seat_student_id (room_seats md rc fg room students)
     = take (nat (fst (room_layout rc room) * snd (room_layout rc room))) (room_queue md students)"
proof (cases "students = []")
  case True
  then have "room_queue md students = []"
    using length_room_queue [of md students] by simp
  with True show ?thesis by (simp add: room_seats_def)
next
  case False
  then show ?thesis
    using spread_seats_full [OF assms, of md] separation_seats_props [of rc room md _ students]
    by (auto simp: room_seats_def split: option.splits)
qed

lemma room_seats_fits:
  assumes "0 < fst (room_layout rc room)"
    "int (length students) \<le> fst (room_layout rc room) * snd (room_layout rc room)"
  shows "well_seated (fst (room_layout rc room)) (snd (room_layout rc room)) (room_seats md rc fg room students)
     \<and> map seat_student_id (room_seats md rc fg room students) = room_queue md students"
proof (cases "students = []")
  case True
  then have "room_queue md students = []"
    using length_room_queue [of md students] by simp
  with True show ?thesis by (simp add: room_seats_def well_seated_def)
next
  case False
  have sep: "well_seated (fst (room_layout rc room)) (snd (room_layout rc room)) (separation_seats md rc g room students)
     \<and> map seat_student_id (separation_seats md rc g room students) = room_queue md students" for g
  proof -
    from separation_seats_props [of rc room md g students]
    have inv: "seats_inv (fst (room_layout rc room)) (snd (room_layout rc room)) (separation_seats md rc g room students)"
      and m: "map seat_student_id (separation_seats md rc g room students)
       = take (nat (fst (room_layout rc room) * snd (room_layout rc room))) (room_queue md students)"
      by blast+
    have "length (room_queue md students) \<le> nat (fst (room_layout rc room) * snd (room_layout rc room))"
      using assms(2) by (simp add: length_room_queue)
    with m have "map seat_student_id (separation_seats md rc g room students) = room_queue md students"
      by simp
    with seats_inv_well_seated [OF assms(1) inv] show ?thesis by simp
  qed
  from False sep spread_seats_props [OF assms(1) False assms(2), of md] show ?thesis
    by (auto simp: room_seats_def split: option.splits)
qed

subsection \<open>Seat placement: results\<close>

text \<open>
  C4: take a room of the assignment (a dictionary, so its keys are distinct) whose grid
  has a positive number of columns and whose student count is at most columns times
  rows. With or without a friend graph, \<open>assign_seats_in_room\<close> returns a seating, and the
  room's seats carry the room's students, each as often as the room lists it (once, for
  a list without repetition); the cells are pairwise different, the seat numbers are
  pairwise different, every cell has \<open>0 \<le> x < columns\<close> and \<open>0 \<le> y < rows\<close>, and the
  seat number is \<open>y * columns + x + 1\<close>.
\<close>

theorem assign_seats_in_room_unique_cells:
  assumes "distinct (map fst room_assignment)" and "(room, students) \<in> set room_assignment"
    and "room_layout room_config room = (cols, rows)" and "0 < cols"
    and "int (length students) \<le> cols * rows"
  shows "\<exists>seating. assign_seats_in_room db room_assignment md room_config friend_graph = Inr seating
     \<and> mset (map seat_student_id (dict_get seating room)) = mset students
     \<and> well_seated cols rows (dict_get seating room)"
proof -
  from assign_seats_in_room_lookup [OF assms(1,2)]
  obtain seating where s: "assign_seats_in_room db room_assignment md room_config friend_graph = Inr seating"
    "dict_get seating room = room_seats md room_config friend_graph room students"
    by blast
  have c: "0 < fst (room_layout room_config room)"
    "int (length students) \<le> fst (room_layout room_config room) * snd (room_layout room_config room)"
    using assms(3,4,5) by simp_all
  from room_seats_fits [OF c, of md friend_graph] assms(3)
  have w: "well_seated cols rows (dict_get seating room)"
    and m: "map seat_student_id (dict_get seating room) = room_queue md students"
    by (simp_all add: s(2))
  have "mset (map seat_student_id (dict_get seating room)) = mset students"
    by (simp only: m mset_room_queue)
  with s(1) w show ?thesis by blast
qed

theorem assign_seats_in_room_unique_cells_witness:
  "distinct (map fst [(''R'', [''a'', ''b'', ''c''])])
   \<and> (''R'', [''a'', ''b'', ''c'']) \<in> set [(''R'', [''a'', ''b'', ''c''])]
   \<and> room_layout [''R'' \<mapsto> demo_layout 2 2] ''R'' = (2, 2)
   \<and> (0::int) < 2 \<and> int (length [''a'', ''b'', ''c'']) \<le> 2 * 2
   \<and> (\<exists>seating. assign_seats_in_room [] [(''R'', [''a'', ''b'', ''c''])] Map.empty
                    [''R'' \<mapsto> demo_layout 2 2] None = Inr seating
        \<and> mset (map seat_student_id (dict_get seating ''R'')) = mset [''a'', ''b'', ''c'']
        \<and> well_seated 2 2 (dict_get seating ''R''))"
proof -
  have 1: "distinct (map fst [(''R'', [''a'', ''b'', ''c''])])" by simp
  have 2: "(''R'', [''a'', ''b'', ''c'']) \<in> set [(''R'', [''a'', ''b'', ''c''])]" by simp
  have 3: "room_layout [''R'' \<mapsto> demo_layout 2 2] ''R'' = (2, 2)"
    by (simp add: room_layout_def demo_layout_def demo_room_dict_def get_default_def)
  have 4: "(0::int) < 2" by simp
  have 5: "int (length [''a'', ''b'', ''c'']) \<le> 2 * 2" by simp
  from assign_seats_in_room_unique_cells [OF 1 2 3 4 5, of "[]" Map.empty None] 1 2 3 4 5
  show ?thesis by blast
qed

text \<open>
  C9: for a room with more students than columns times rows, on either path, the call
  still returns a seating (no error value), the room's seats are those of the first
  columns times rows students of the interleaved queue, and the rest of the queue, which
  is not empty, has no seat: the room has fewer seats than students, and no other part
  of the result mentions them.
\<close>

theorem assign_seats_in_room_omits_excess:
  assumes "distinct (map fst room_assignment)" and "(room, students) \<in> set room_assignment"
    and "room_layout room_config room = (cols, rows)"
    and "cols * rows < int (length students)" and "students \<noteq> []"
  shows "\<exists>seating. assign_seats_in_room db room_assignment md room_config friend_graph = Inr seating
     \<and> map seat_student_id (dict_get seating room) = take (nat (cols * rows)) (room_queue md students)
     \<and> length (dict_get seating room) < length students
     \<and> drop (nat (cols * rows)) (room_queue md students) \<noteq> []
     \<and> (distinct students \<longrightarrow>
          (\<forall>s \<in> set (drop (nat (cols * rows)) (room_queue md students)).
             s \<notin> seat_student_id ` set (dict_get seating room)))"
proof -
  let ?q = "room_queue md students" and ?k = "nat (cols * rows)"
  from assign_seats_in_room_lookup [OF assms(1,2)]
  obtain seating where s: "assign_seats_in_room db room_assignment md room_config friend_graph = Inr seating"
    "dict_get seating room = room_seats md room_config friend_graph room students"
    by blast
  have c: "fst (room_layout room_config room) * snd (room_layout room_config room) \<le> int (length students)"
    using assms(3,4) by simp
  from room_seats_overfull [OF c, of md friend_graph] assms(3)
  have m: "map seat_student_id (dict_get seating room) = take ?k ?q"
    by (simp add: s(2))
  have k: "?k < length ?q"
  proof (cases "0 \<le> cols * rows")
    case True
    with assms(4) show ?thesis by (simp add: length_room_queue nat_less_iff)
  next
    case False
    with assms(5) show ?thesis by (simp add: length_room_queue)
  qed
  have "length (dict_get seating room) = length (map seat_student_id (dict_get seating room))" by simp
  also have "\<dots> = ?k" unfolding m using k by simp
  finally have l: "length (dict_get seating room) < length students"
    using k by (simp add: length_room_queue)
  have d: "drop ?k ?q \<noteq> []" using k by simp
  have e: "distinct students \<longrightarrow>
      (\<forall>s \<in> set (drop ?k ?q). s \<notin> seat_student_id ` set (dict_get seating room))"
  proof (intro impI ballI)
    fix s assume "distinct students" and s: "s \<in> set (drop ?k ?q)"
    then have "distinct (take ?k ?q @ drop ?k ?q)"
      by (simp add: distinct_room_queue)
    then have "set (take ?k ?q) \<inter> set (drop ?k ?q) = {}"
      by (simp only: distinct_append)
    with s have "s \<notin> set (take ?k ?q)" by blast
    then show "s \<notin> seat_student_id ` set (dict_get seating room)"
      using m by (metis set_map)
  qed
  show ?thesis using s(1) m l d e by blast
qed

theorem assign_seats_in_room_omits_excess_witness:
  "distinct (map fst [(''R'', [''a'', ''b'', ''c''])])
   \<and> (''R'', [''a'', ''b'', ''c'']) \<in> set [(''R'', [''a'', ''b'', ''c''])]
   \<and> room_layout [''R'' \<mapsto> demo_layout 1 2] ''R'' = (1, 2)
   \<and> (1::int) * 2 < int (length [''a'', ''b'', ''c'']) \<and> [''a'', ''b'', ''c''] \<noteq> []
   \<and> (\<exists>seating. assign_seats_in_room [] [(''R'', [''a'', ''b'', ''c''])] Map.empty
                    [''R'' \<mapsto> demo_layout 1 2] None = Inr seating
        \<and> length (dict_get seating ''R'') < length [''a'', ''b'', ''c''])"
proof -
  have 1: "distinct (map fst [(''R'', [''a'', ''b'', ''c''])])" by simp
  have 2: "(''R'', [''a'', ''b'', ''c'']) \<in> set [(''R'', [''a'', ''b'', ''c''])]" by simp
  have 3: "room_layout [''R'' \<mapsto> demo_layout 1 2] ''R'' = (1, 2)"
    by (simp add: room_layout_def demo_layout_def demo_room_dict_def get_default_def)
  have 4: "(1::int) * 2 < int (length [''a'', ''b'', ''c''])" by simp
  have 5: "[''a'', ''b'', ''c''] \<noteq> []" by simp
  from assign_seats_in_room_omits_excess [OF 1 2 3 4 5, of "[]" Map.empty None] 1 2 3 4 5
  show ?thesis by blast
qed

text \<open>
  C7, as stated, fails: in a 2 by 2 room with the two related students \<open>a\<close> and \<open>b\<close>
  (occupancy at most half of the grid) the second student is seated at (1, 0), next to
  the first at (0, 0), because every other cell of the grid is a neighbour of (0, 0).
\<close>

theorem separation_adjacent_despite_spacing_counterexample:
  "2 * int (length [''a'', ''b'']) \<le> 2 * 2
   \<and> assign_seats_in_room [] [(''R'', [''a'', ''b''])] Map.empty [''R'' \<mapsto> demo_layout 2 2]
        (Some [(''a'', {''b''}), (''b'', {''a''})])
      = Inr [(''R'', [make_seat 0 0 ''a'' 1 None, make_seat 1 0 ''b'' 2 None])]
   \<and> (1, 0) \<in> set (get_adjacent_positions 0 0 2 2)"
  by code_simp

text \<open>
  C5: on the same input the loop does append the record (room, student, position) to
  \<open>adjacency_violations\<close>, but \<open>assign_seats_with_separation\<close> returns the seating only, and
  that value is the same as for a friend graph under which nobody is related and no
  record is made: the caller cannot observe the violation.
\<close>

theorem adjacency_violation_not_returned:
  "snd (separation_rooms Map.empty [''R'' \<mapsto> demo_layout 2 2] [(''a'', {''b''}), (''b'', {''a''})]
          [(''R'', [''a'', ''b''])] ([], []))
     = [\<lparr> violation_room = ''R'', violation_student_id = ''b'', violation_position = (1, 0) \<rparr>]
   \<and> assign_seats_with_separation [] [(''R'', [''a'', ''b''])] Map.empty [''R'' \<mapsto> demo_layout 2 2]
        (Some [(''a'', {''b''}), (''b'', {''a''})])
      = [(''R'', [make_seat 0 0 ''a'' 1 None, make_seat 1 0 ''b'' 2 None])]
   \<and> snd (separation_rooms Map.empty [''R'' \<mapsto> demo_layout 2 2] [(''a'', {''c''})]
          [(''R'', [''a'', ''b''])] ([], [])) = []
   \<and> assign_seats_with_separation [] [(''R'', [''a'', ''b''])] Map.empty [''R'' \<mapsto> demo_layout 2 2]
        (Some [(''a'', {''c''})])
      = [(''R'', [make_seat 0 0 ''a'' 1 None, make_seat 1 0 ''b'' 2 None])]"
  by code_simp

subsection \<open>Seat placement: related students\<close>

lemma assigned_after_lookup:
  "distinct (map (\<lambda>t. (seat_x t, seat_y t)) seats) \<Longrightarrow>
   assigned_after seats c = Some u
   \<longleftrightarrow> (\<exists>t \<in> set seats. (seat_x t, seat_y t) = c \<and> seat_student_id t = u)"
proof (induction seats rule: rev_induct)
  case Nil
  show ?case by (simp add: assigned_after_def)
next
  case (snoc s seats)
  from snoc.prems have d: "distinct (map (\<lambda>t. (seat_x t, seat_y t)) seats)"
    and new: "(seat_x s, seat_y s) \<notin> (\<lambda>t. (seat_x t, seat_y t)) ` set seats"
    by simp_all
  show ?case
  proof (cases "c = (seat_x s, seat_y s)")
    case True
    have "assigned_after (seats @ [s]) c = Some (seat_student_id s)"
      by (simp add: assigned_after_snoc True)
    moreover have "(\<exists>t \<in> set (seats @ [s]). (seat_x t, seat_y t) = c \<and> seat_student_id t = u)
        \<longleftrightarrow> u = seat_student_id s"
    proof
      assume "\<exists>t \<in> set (seats @ [s]). (seat_x t, seat_y t) = c \<and> seat_student_id t = u"
      then obtain t where t: "t \<in> set (seats @ [s])" "(seat_x t, seat_y t) = c" "seat_student_id t = u"
        by blast
      have "t \<notin> set seats"
      proof
        assume "t \<in> set seats"
        then have "(seat_x t, seat_y t) \<in> (\<lambda>t. (seat_x t, seat_y t)) ` set seats" by (rule imageI)
        with new t(2) True show False by simp
      qed
      with t(1) have "t = s" by simp
      with t(3) show "u = seat_student_id s" by simp
    next
      assume "u = seat_student_id s"
      with True show "\<exists>t \<in> set (seats @ [s]). (seat_x t, seat_y t) = c \<and> seat_student_id t = u"
        by auto
    qed
    ultimately show ?thesis by auto
  next
    case False
    have "assigned_after (seats @ [s]) c = assigned_after seats c"
      using False by (simp add: assigned_after_snoc)
    moreover have "(\<exists>t \<in> set (seats @ [s]). (seat_x t, seat_y t) = c \<and> seat_student_id t = u)
        \<longleftrightarrow> (\<exists>t \<in> set seats. (seat_x t, seat_y t) = c \<and> seat_student_id t = u)"
      using False by auto
    ultimately show ?thesis using snoc.IH [OF d] by simp
  qed
qed

lemma seats_inv_distinct_cells:
  assumes "seats_inv cols rows seats"
  shows "distinct (map (\<lambda>t. (seat_x t, seat_y t)) seats)"
proof -
  have cells: "map (\<lambda>s. (seat_x s, seat_y s)) seats = map (\<lambda>s. cell_of cols (seat_no s - 1)) seats"
    using assms by (auto simp: seats_inv_def)
  have "inj_on (\<lambda>s. cell_of cols (seat_no s - 1)) (set seats)"
  proof (rule inj_onI)
    fix s t assume st: "s \<in> set seats" "t \<in> set seats"
      and e: "cell_of cols (seat_no s - 1) = cell_of cols (seat_no t - 1)"
    from e have "seat_no s - 1 = seat_no t - 1" by (rule cell_of_inj)
    then have "seat_no s = seat_no t" by simp
    with assms st show "s = t"
      unfolding seats_inv_def by (metis distinct_map inj_onD)
  qed
  moreover have "distinct seats" using assms unfolding seats_inv_def by (metis distinct_map)
  ultimately have "distinct (map (\<lambda>s. cell_of cols (seat_no s - 1)) seats)"
    by (simp add: distinct_map)
  then show ?thesis by (simp only: cells)
qed

lemma is_adjacent_to_friend_related:
  assumes sym: "symmetric_friend_graph fg"
    and d: "distinct (map (\<lambda>t. (seat_x t, seat_y t)) seated)"
  shows "is_adjacent_to_friend x y s (assigned_after seated) fg cols rows
     \<longleftrightarrow> next_to_related fg cols rows seated s (x, y)"
proof -
  have rel: "related fg s u \<longleftrightarrow> u \<in> friends_of fg s" for u
    using sym unfolding related_def symmetric_friend_graph_def by blast
  have "is_adjacent_to_friend x y s (assigned_after seated) fg cols rows
      \<longleftrightarrow> (\<exists>adj \<in> set (get_adjacent_positions x y cols rows).
             \<exists>u. assigned_after seated adj = Some u \<and> u \<in> friends_of fg s)"
    unfolding is_adjacent_to_friend_def friends_of_def
    by (auto simp: list_ex_iff split: option.splits)
  also have "\<dots> \<longleftrightarrow> (\<exists>adj \<in> set (get_adjacent_positions x y cols rows).
             \<exists>u. (\<exists>t \<in> set seated. (seat_x t, seat_y t) = adj \<and> seat_student_id t = u)
                  \<and> u \<in> friends_of fg s)"
    by (simp only: assigned_after_lookup [OF d])
  also have "\<dots> \<longleftrightarrow> next_to_related fg cols rows seated s (x, y)"
    unfolding next_to_related_def rel by auto
  finally show ?thesis .
qed

lemma seats_inv_take: "seats_inv cols rows seats \<Longrightarrow> seats_inv cols rows (take k seats)"
proof -
  assume inv: "seats_inv cols rows seats"
  have "set (take k seats) \<subseteq> set seats" by (rule set_take_subset)
  moreover have "distinct (map seat_no (take k seats))"
    using inv unfolding seats_inv_def by (simp add: take_map [symmetric] distinct_take)
  ultimately show ?thesis
    using inv unfolding seats_inv_def by blast
qed

lemma related_adjacent_only_if_forced_of:
  assumes sym: "symmetric_friend_graph fg" and inv: "seats_inv cols rows seats"
    and f: "adjacent_only_if_forced fg cols rows seats"
  shows "related_adjacent_only_if_forced fg cols rows seats"
  unfolding related_adjacent_only_if_forced_def
proof (intro allI impI)
  fix k j
  assume k: "k < length seats"
    and adj: "next_to_related fg cols rows (take k seats) (seat_student_id (seats ! k))
          (seat_x (seats ! k), seat_y (seats ! k))"
    and j: "0 \<le> j \<and> j < cols * rows
              \<and> cell_of cols j \<notin> (\<lambda>t. (seat_x t, seat_y t)) ` set (take k seats)"
  have d: "distinct (map (\<lambda>t. (seat_x t, seat_y t)) (take k seats))"
    using seats_inv_distinct_cells [OF seats_inv_take [OF inv]] .
  note eq = is_adjacent_to_friend_related [OF sym d]
  have free: "assigned_after (take k seats) (cell_of cols j) = None"
    using j dom_assigned_after [of "take k seats"] by (auto simp: domIff)
  have "is_adjacent_to_friend (seat_x (seats ! k)) (seat_y (seats ! k)) (seat_student_id (seats ! k))
          (assigned_after (take k seats)) fg cols rows"
    using adj by (simp only: eq)
  with f k j free
  have "is_adjacent_to_friend (j mod cols) (j div cols) (seat_student_id (seats ! k))
          (assigned_after (take k seats)) fg cols rows"
    unfolding adjacent_only_if_forced_def by blast
  then show "next_to_related fg cols rows (take k seats) (seat_student_id (seats ! k)) (cell_of cols j)"
    by (simp only: eq cell_of_def)
qed

text \<open>
  C7, amended: with a non-empty symmetric relationship map, a student is seated in
  the 8-neighbourhood of an already seated related student only if every cell of the
  grid that was free at that moment was in the 8-neighbourhood of an already seated
  student related to that student; the seats go to the first columns times rows
  students of the queue, so a room with at most that many students (occupancy equal to
  capacity included) has every student seated.
\<close>

theorem separation_related_adjacent_only_if_forced:
  assumes "friend_graph \<noteq> []" and "symmetric_friend_graph friend_graph"
    and "distinct (map fst room_assignment)" and "(room, students) \<in> set room_assignment"
    and "room_layout room_config room = (cols, rows)"
  shows "\<exists>seating. assign_seats_in_room db room_assignment md room_config (Some friend_graph) = Inr seating
     \<and> related_adjacent_only_if_forced friend_graph cols rows (dict_get seating room)
     \<and> map seat_student_id (dict_get seating room) = take (nat (cols * rows)) (room_queue md students)
     \<and> (int (length students) \<le> cols * rows \<longrightarrow>
          map seat_student_id (dict_get seating room) = room_queue md students)"
proof -
  from assign_seats_in_room_lookup [OF assms(3,4)]
  obtain seating where s: "assign_seats_in_room db room_assignment md room_config (Some friend_graph) = Inr seating"
    "dict_get seating room = room_seats md room_config (Some friend_graph) room students"
    by blast
  have r: "related_adjacent_only_if_forced friend_graph cols rows (dict_get seating room)
     \<and> map seat_student_id (dict_get seating room) = take (nat (cols * rows)) (room_queue md students)"
  proof (cases "students = []")
    case True
    then have "room_queue md students = []"
      using length_room_queue [of md students] by simp
    with True show ?thesis
      by (simp add: s(2) room_seats_def related_adjacent_only_if_forced_def)
  next
    case False
    with assms(1) have e: "dict_get seating room = separation_seats md room_config friend_graph room students"
      by (simp add: s(2) room_seats_def)
    from separation_seats_props [of room_config room md friend_graph students] assms(5)
    have inv: "seats_inv cols rows (dict_get seating room)"
      and f: "adjacent_only_if_forced friend_graph cols rows (dict_get seating room)"
      and m: "map seat_student_id (dict_get seating room)
          = take (nat (cols * rows)) (room_queue md students)"
      by (simp_all add: e)
    from related_adjacent_only_if_forced_of [OF assms(2) inv f] m show ?thesis by simp
  qed
  moreover have "int (length students) \<le> cols * rows \<longrightarrow>
          map seat_student_id (dict_get seating room) = room_queue md students"
    using r by (simp add: length_room_queue)
  ultimately show ?thesis using s(1) by blast
qed

theorem separation_related_adjacent_only_if_forced_witness:
  "[(''a'', {''b''}), (''b'', {''a''})] \<noteq> []
   \<and> symmetric_friend_graph [(''a'', {''b''}), (''b'', {''a''})]
   \<and> distinct (map fst [(''R'', [''a'', ''b''])])
   \<and> (''R'', [''a'', ''b'']) \<in> set [(''R'', [''a'', ''b''])]
   \<and> room_layout [''R'' \<mapsto> demo_layout 2 2] ''R'' = (2, 2)
   \<and> (\<exists>seating. assign_seats_in_room [] [(''R'', [''a'', ''b''])] Map.empty [''R'' \<mapsto> demo_layout 2 2]
                    (Some [(''a'', {''b''}), (''b'', {''a''})]) = Inr seating
        \<and> related_adjacent_only_if_forced [(''a'', {''b''}), (''b'', {''a''})] 2 2 (dict_get seating ''R'')
        \<and> map seat_student_id (dict_get seating ''R'') = room_queue Map.empty [''a'', ''b''])"
proof -
  have 1: "[(''a'', {''b''}), (''b'', {''a''})] \<noteq> []" by simp
  have 2: "symmetric_friend_graph [(''a'', {''b''}), (''b'', {''a''})]"
    by (auto simp: symmetric_friend_graph_def friends_of_def split: if_splits)
  have 3: "distinct (map fst [(''R'', [''a'', ''b''])])" by simp
  have 4: "(''R'', [''a'', ''b'']) \<in> set [(''R'', [''a'', ''b''])]" by simp
  have 5: "room_layout [''R'' \<mapsto> demo_layout 2 2] ''R'' = (2, 2)"
    by (simp add: room_layout_def demo_layout_def demo_room_dict_def get_default_def)
  have 6: "int (length [''a'', ''b'']) \<le> 2 * 2" by simp
  from separation_related_adjacent_only_if_forced [OF 1 2 3 4 5, of "[]" Map.empty] 1 2 3 4 5 6
  show ?thesis by blast
qed

subsection \<open>Room assignment: placements and their bookkeeping\<close>

lemma dict_get_dict_append:
  "dict_get (dict_append d k vs) k' = (if k' = k then dict_get d k @ vs else dict_get d k')"
  by (induction d) (auto simp: dict_get_def)

lemma dict_get_dict_set: "dict_get (dict_set d k v) k' = (if k' = k then v else dict_get d k')"
  by (simp add: dict_get_def map_of_dict_set)

lemma mset_concat_dict_set:
  "distinct (map fst d) \<Longrightarrow>
   mset (concat (map snd (dict_set d k v))) + mset (dict_get d k) = mset (concat (map snd d)) + mset v"
proof (induction d)
  case Nil
  show ?case by (simp add: dict_get_def)
next
  case (Cons p d)
  obtain k' l where p: "p = (k', l)" by (cases p)
  show ?case
  proof (cases "k' = k")
    case True
    with p show ?thesis by (simp add: dict_get_def)
  next
    case False
    with Cons p have "mset (concat (map snd (dict_set d k v))) + mset (dict_get d k)
        = mset (concat (map snd d)) + mset v"
      by simp
    moreover have "dict_get (p # d) k = dict_get d k"
      using False p by (simp add: dict_get_def)
    ultimately show ?thesis using False p by (simp add: ac_simps)
  qed
qed

lemma find_room:
  "distinct (map room_id rooms) \<Longrightarrow> room \<in> set rooms \<Longrightarrow>
   find (\<lambda>r. room_id r = room_id room) rooms = Some room"
  by (induction rooms) auto

lemma can_place_room:
  "distinct (map room_id rooms) \<Longrightarrow> room \<in> set rooms \<Longrightarrow>
   can_place rooms st (room_id room) g = room_accepts room (st (room_id room)) g"
  by (simp add: can_place_iff find_room)

lemma dict_get_subset: "set (dict_get asg k) \<subseteq> assigned_ids asg"
proof (cases "map_of asg k")
  case None
  then show ?thesis by (simp add: dict_get_def)
next
  case (Some l)
  then have "(k, l) \<in> set asg" by (rule map_of_SomeD)
  then have "set l \<subseteq> assigned_ids asg" by (force simp: assigned_ids_def)
  with Some show ?thesis by (simp add: dict_get_def)
qed

lemma assigned_ids_mset: "assigned_ids asg = set_mset (mset (concat (map snd asg)))"
  by (auto simp: assigned_ids_def)

subsection \<open>Room assignment: what the backtracking search returns\<close>

lemma load_of_Cons:
  "load_of (r # rs) (g # gs) rid = (if room_id r = rid then g else []) @ load_of rs gs rid"
  by (simp add: load_of_def)

lemma load_of_Nil [simp]: "load_of [] gs rid = []" "load_of rs [] rid = []"
  by (simp_all add: load_of_def)

lemma assigned_ids_dict_append:
  "assigned_ids (dict_append asg k vs) = assigned_ids asg \<union> set vs"
  by (simp add: assigned_ids_mset mset_concat_dict_append)

lemma feasible_length: "feasible rs gs st \<Longrightarrow> length rs = length gs"
  by (induction rs gs st rule: feasible.induct) auto

lemma dfs_step:
  "dfs rooms (g # rest) (room # todo) s =
     (if can_place rooms (fst s) (room_id room) g then
        (let r = dfs rooms rest rooms
                   ((fst s)(room_id room := bt_update (fst s (room_id room)) g),
                    dict_append (snd s) (room_id room) (map sid g))
         in if fst r then (True, snd r)
            else dfs rooms (g # rest) todo
                   ((fst (snd r))(room_id room := fst s (room_id room)),
                    dict_set (snd (snd r)) (room_id room)
                      (filter (\<lambda>x. x \<notin> set (map sid g)) (dict_get (snd (snd r)) (room_id room)))))
      else dfs rooms (g # rest) todo s)"
  by (simp add: Let_def bt_update_def)

subsection \<open>Room assignment: the backtracking search\<close>

lemma dfs_post_skip_room:
  assumes "dfs_post rooms (g # rest) todo s r"
    and "\<not> (\<exists>rs. set rs \<subseteq> set rooms \<and> feasible (room # rs) (g # rest) (fst s))"
  shows "dfs_post rooms (g # rest) (room # todo) s r"
  using assms unfolding dfs_post_def by (cases "fst r") auto

lemma dfs_post_cong:
  "fst s = fst s' \<Longrightarrow> \<forall>rid. dict_get (snd s) rid = dict_get (snd s') rid \<Longrightarrow>
   mset (concat (map snd (snd s))) = mset (concat (map snd (snd s'))) \<Longrightarrow>
   dfs_post rooms gs todo s r = dfs_post rooms gs todo s' r"
  by (simp add: dfs_post_def)

lemma dfs_correct:
  "distinct (map room_id rooms) \<Longrightarrow> set todo \<subseteq> set rooms \<Longrightarrow> distinct (map fst (snd s)) \<Longrightarrow>
   disjoint_ids (assigned_ids (snd s)) gs \<Longrightarrow>
   dfs_post rooms gs todo s (dfs rooms gs todo s)"
proof (induction rooms gs todo s rule: dfs.induct)
  case (1 rooms todo st)
  have "feasible [] [] (fst st)" by simp
  then show ?case
    using 1 unfolding dfs_post_def by (auto intro!: exI [of _ "[]"])
next
  case (2 rooms grp rest st)
  then show ?case unfolding dfs_post_def by simp
next
  case (3 rooms g rest room todo s)
  let ?rid = "room_id room"
  define st1 where "st1 = (fst s)(?rid := bt_update (fst s ?rid) g)"
  define asg1 where "asg1 = dict_append (snd s) ?rid (map sid g)"
  define r where "r = dfs rooms rest rooms (st1, asg1)"
  have room: "room \<in> set rooms" and todo: "set todo \<subseteq> set rooms"
    using "3.prems"(2) by auto
  have acc: "can_place rooms (fst s) ?rid g = room_accepts room (fst s ?rid) g"
    using "3.prems"(1) room by (rule can_place_room)
  have ids: "set (map sid g) \<inter> assigned_ids (snd s) = {}"
    and rest_ids: "disjoint_ids (assigned_ids (snd s) \<union> set (map sid g)) rest"
    using "3.prems"(4) by simp_all
  show ?case
  proof (cases "can_place rooms (fst s) ?rid g")
    case False
    have "dfs_post rooms (g # rest) todo s (dfs rooms (g # rest) todo s)"
      using "3.IH"(3) [OF False "3.prems"(1) todo "3.prems"(3,4)] .
    moreover have "\<not> (\<exists>rs. set rs \<subseteq> set rooms \<and> feasible (room # rs) (g # rest) (fst s))"
      using False acc by simp
    ultimately have "dfs_post rooms (g # rest) (room # todo) s (dfs rooms (g # rest) todo s)"
      by (rule dfs_post_skip_room)
    then show ?thesis using False by (simp only: dfs_step if_False)
  next
    case True
    have lit: "((fst s)(?rid :=
             \<lparr>remaining_capacity = remaining_capacity (fst s ?rid) - int (length g),
                subjects = subjects (fst s ?rid) \<union> group_subjects g,
                branches = branches (fst s ?rid) \<union> group_branches g,
                years = years (fst s ?rid) \<union> group_years g,
                departments = departments (fst s ?rid) \<union> group_departments g\<rparr>),
          dict_append (snd s) ?rid (map sid g)) = (st1, asg1)"
      by (simp add: st1_def asg1_def bt_update_def)
    have d1: "distinct (map fst (snd (st1, asg1)))"
      using "3.prems"(3) by (simp add: asg1_def distinct_keys_dict_append)
    have i1: "disjoint_ids (assigned_ids (snd (st1, asg1))) rest"
      using rest_ids by (simp add: asg1_def assigned_ids_dict_append)
    have post1: "dfs_post rooms rest rooms (st1, asg1) r"
      unfolding r_def
      using "3.IH"(1) [OF True refl refl, unfolded lit, OF "3.prems"(1) subset_refl d1 i1] .
    have step: "dfs rooms (g # rest) (room # todo) s
        = (if fst r then (True, snd r)
           else dfs rooms (g # rest) todo
                  ((fst (snd r))(?rid := fst s ?rid),
                   dict_set (snd (snd r)) ?rid
                     (filter (\<lambda>x. x \<notin> set (map sid g)) (dict_get (snd (snd r)) ?rid))))"
      using True by (simp only: dfs_step if_True Let_def r_def st1_def asg1_def)
    show ?thesis
    proof (cases "fst r")
      case ok: True
      from post1 ok obtain rs where rs: "set rs \<subseteq> set rooms" "feasible rs rest st1"
        "fst (snd r) = run_status rs rest st1"
        "\<forall>rid. dict_get (snd (snd r)) rid = dict_get asg1 rid @ map sid (load_of rs rest rid)"
        "mset (concat (map snd (snd (snd r)))) = mset (concat (map snd asg1)) + mset (map sid (concat rest))"
        and dk: "distinct (map fst (snd (snd r)))"
        unfolding dfs_post_def by auto
      have f: "feasible (room # rs) (g # rest) (fst s)"
        using True acc rs(2) by (simp add: st1_def)
      have rn: "fst (snd r) = run_status (room # rs) (g # rest) (fst s)"
        using rs(3) by (simp add: st1_def)
      have dg: "\<forall>rid. dict_get (snd (snd r)) rid
          = dict_get (snd s) rid @ map sid (load_of (room # rs) (g # rest) rid)"
        using rs(4) by (auto simp: asg1_def dict_get_dict_append load_of_Cons)
      have ms: "mset (concat (map snd (snd (snd r))))
          = mset (concat (map snd (snd s))) + mset (map sid (concat (g # rest)))"
        using rs(5) by (simp add: asg1_def mset_concat_dict_append)
      have "dfs_post rooms (g # rest) (room # todo) s (True, snd r)"
        unfolding dfs_post_def
        using dk f rn dg ms rs(1) room
        by (auto intro!: exI [of _ "room # rs"])
      then show ?thesis using ok by (simp only: step if_True)
    next
      case failed: False
      from post1 failed have bk: "fst (snd r) = st1"
        "\<forall>rid. dict_get (snd (snd r)) rid = dict_get asg1 rid"
        "mset (concat (map snd (snd (snd r)))) = mset (concat (map snd asg1))"
        "\<not> (\<exists>r' rs. r' \<in> set rooms \<and> set rs \<subseteq> set rooms \<and> feasible (r' # rs) rest st1)"
        and dk: "distinct (map fst (snd (snd r)))"
        unfolding dfs_post_def by auto
      define asg2 where "asg2 = dict_set (snd (snd r)) ?rid
                     (filter (\<lambda>x. x \<notin> set (map sid g)) (dict_get (snd (snd r)) ?rid))"
      define s2 where "s2 = ((fst (snd r))(?rid := fst s ?rid), asg2)"
      have st2: "fst s2 = fst s"
        by (simp add: s2_def bk(1) st1_def)
      have old: "set (dict_get (snd s) ?rid) \<inter> set (map sid g) = {}"
        using ids dict_get_subset [of "snd s" ?rid] by blast
      have filt: "filter (\<lambda>x. x \<notin> set (map sid g)) (dict_get (snd (snd r)) ?rid) = dict_get (snd s) ?rid"
      proof -
        have "dict_get (snd (snd r)) ?rid = dict_get (snd s) ?rid @ map sid g"
          using bk(2) by (simp add: asg1_def dict_get_dict_append)
        moreover have "filter (\<lambda>x. x \<notin> set (map sid g)) (dict_get (snd s) ?rid) = dict_get (snd s) ?rid"
          using old by (auto simp: filter_id_conv)
        moreover have "filter (\<lambda>x. x \<notin> set (map sid g)) (map sid g) = []"
          by (simp add: filter_empty_conv)
        ultimately show ?thesis by simp
      qed
      have a2: "asg2 = dict_set (snd (snd r)) ?rid (dict_get (snd s) ?rid)"
        unfolding asg2_def filt ..
      have dg2: "\<forall>rid. dict_get (snd s2) rid = dict_get (snd s) rid"
        using bk(2) by (simp add: s2_def a2 dict_get_dict_set asg1_def dict_get_dict_append)
      have ms2: "mset (concat (map snd (snd s2))) = mset (concat (map snd (snd s)))"
      proof -
        have "mset (concat (map snd asg2)) + mset (dict_get (snd (snd r)) ?rid)
            = mset (concat (map snd (snd (snd r)))) + mset (dict_get (snd s) ?rid)"
          unfolding asg2_def filt using dk by (rule mset_concat_dict_set)
        moreover have "dict_get (snd (snd r)) ?rid = dict_get (snd s) ?rid @ map sid g"
          using bk(2) by (simp add: asg1_def dict_get_dict_append)
        moreover have "mset (concat (map snd (snd (snd r)))) = mset (concat (map snd (snd s))) + mset (map sid g)"
          using bk(3) by (simp add: asg1_def mset_concat_dict_append)
        ultimately have "mset (concat (map snd asg2)) + (mset (dict_get (snd s) ?rid) + mset (map sid g))
            = mset (concat (map snd (snd s))) + (mset (dict_get (snd s) ?rid) + mset (map sid g))"
          by (simp add: ac_simps)
        then show ?thesis by (simp add: s2_def)
      qed
      have d2: "distinct (map fst (snd s2))"
        using dk by (simp add: s2_def asg2_def distinct_keys_dict_set)
      have i2: "disjoint_ids (assigned_ids (snd s2)) (g # rest)"
        using "3.prems"(4) ms2 by (simp add: assigned_ids_mset)
      have post2: "dfs_post rooms (g # rest) todo s2 (dfs rooms (g # rest) todo s2)"
        using "3.IH"(2) [OF True refl refl, unfolded lit, OF r_def failed,
            folded asg2_def, folded s2_def, OF "3.prems"(1) todo d2 i2] .
      have norm: "\<not> (\<exists>rs. set rs \<subseteq> set rooms \<and> feasible (room # rs) (g # rest) (fst s))"
      proof
        assume "\<exists>rs. set rs \<subseteq> set rooms \<and> feasible (room # rs) (g # rest) (fst s)"
        then obtain rs where rs: "set rs \<subseteq> set rooms" "feasible rs rest st1"
          by (auto simp: st1_def)
        show False
        proof (cases rest)
          case Nil
          then have "r = (True, st1, asg1)" by (simp add: r_def)
          with failed show False by simp
        next
          case (Cons g' rest')
          with rs(2) obtain r' rs' where "rs = r' # rs'" by (cases rs) auto
          with rs bk(4) show False by auto
        qed
      qed
      have "dfs_post rooms (g # rest) todo s (dfs rooms (g # rest) todo s2)"
        using post2 dfs_post_cong [OF st2 dg2 ms2] by simp
      then have "dfs_post rooms (g # rest) (room # todo) s (dfs rooms (g # rest) todo s2)"
        using norm by (rule dfs_post_skip_room)
      then show ?thesis
        using failed by (simp only: step if_False s2_def asg2_def)
    qed
  qed
qed

subsection \<open>Room assignment: rooms within their constraints\<close>

lemma ceiling_ok_mono: "finite B \<Longrightarrow> A \<subseteq> B \<Longrightarrow> ceiling_ok m B \<Longrightarrow> ceiling_ok m A"
proof -
  assume f: "finite B" and s: "A \<subseteq> B" and c: "ceiling_ok m B"
  have "card A \<le> card B" using f s by (rule card_mono)
  then have "int (card A) \<le> int (card B)" by simp
  with c show ?thesis unfolding ceiling_ok_def by linarith
qed

lemma group_sets_append:
  "group_years (P @ L) = group_years P \<union> group_years L"
  "group_departments (P @ L) = group_departments P \<union> group_departments L"
  "group_subjects (P @ L) = group_subjects P \<union> group_subjects L"
  "group_branches (P @ L) = group_branches P \<union> group_branches L"
  by (simp_all add: group_years_def group_departments_def group_subjects_def group_branches_def)

lemma group_sets_finite:
  "finite (group_years L)" "finite (group_departments L)" "finite (group_subjects L)"
  "finite (group_branches L)"
  by (simp_all add: group_years_def group_departments_def group_subjects_def group_branches_def)

lemma fits_with_Nil: "fits_with room [] L = room_fits room L"
  by (simp add: fits_with_def room_fits_def)

lemma room_accepts_status_of: "room_accepts room (status_of room P) g = fits_with room P g"
proof -
  have l: "int (length g) \<le> capacity room - int (length P) \<longleftrightarrow> int (length (P @ g)) \<le> capacity room"
    by auto
  have st: "remaining_capacity (status_of room P) = capacity room - int (length P)"
    "years (status_of room P) = group_years P" "departments (status_of room P) = group_departments P"
    "subjects (status_of room P) = group_subjects P" "branches (status_of room P) = group_branches P"
    by (simp_all add: status_of_def)
  show ?thesis
    unfolding room_accepts_def fits_with_def ceiling_ok_def group_sets_append st l ..
qed

lemma bt_update_status_of: "bt_update (status_of room P) g = status_of room (P @ g)"
  by (simp add: bt_update_def status_of_def group_sets_append)

lemma fits_with_prefix: "fits_with room P (L @ X) \<Longrightarrow> fits_with room P L"
proof -
  assume h: "fits_with room P (L @ X)"
  have sub: "group_years (P @ L) \<subseteq> group_years (P @ L @ X)"
    "group_departments (P @ L) \<subseteq> group_departments (P @ L @ X)"
    "group_subjects (P @ L) \<subseteq> group_subjects (P @ L @ X)"
    "group_branches (P @ L) \<subseteq> group_branches (P @ L @ X)"
    by (simp_all add: group_sets_append) blast+
  from h have c: "ceiling_ok (max_years room) (group_years (P @ L @ X))"
    "ceiling_ok (max_departments room) (group_departments (P @ L @ X))"
    "ceiling_ok (max_subjects room) (group_subjects (P @ L @ X))"
    "ceiling_ok (max_branches room) (group_branches (P @ L @ X))"
    and l: "int (length (P @ L @ X)) \<le> capacity room"
    and a: "group_years (L @ X) \<subseteq> allowed_years room"
    by (simp_all add: fits_with_def)
  have y: "ceiling_ok (max_years room) (group_years (P @ L))"
    using group_sets_finite(1) sub(1) c(1) by (rule ceiling_ok_mono)
  have d: "ceiling_ok (max_departments room) (group_departments (P @ L))"
    using group_sets_finite(2) sub(2) c(2) by (rule ceiling_ok_mono)
  have s: "ceiling_ok (max_subjects room) (group_subjects (P @ L))"
    using group_sets_finite(3) sub(3) c(3) by (rule ceiling_ok_mono)
  have b: "ceiling_ok (max_branches room) (group_branches (P @ L))"
    using group_sets_finite(4) sub(4) c(4) by (rule ceiling_ok_mono)
  have l': "int (length (P @ L)) \<le> capacity room" using l by simp
  have a': "group_years L \<subseteq> allowed_years room"
    using a by (simp add: group_sets_append)
  show ?thesis unfolding fits_with_def using l' a' y d s b by (intro conjI)
qed

lemma fits_with_shift:
  "fits_with room (P @ g) X \<and> group_years g \<subseteq> allowed_years room \<longleftrightarrow> fits_with room P (g @ X)"
proof -
  have a: "group_years (g @ X) \<subseteq> allowed_years room
      \<longleftrightarrow> group_years X \<subseteq> allowed_years room \<and> group_years g \<subseteq> allowed_years room"
    by (auto simp: group_sets_append)
  show ?thesis
    unfolding fits_with_def a append_assoc by blast
qed

subsection \<open>Room assignment: placements one by one and as a whole\<close>

lemma load_of_unused: "rid \<notin> room_id ` set rs \<Longrightarrow> load_of rs gs rid = []"
proof -
  assume "rid \<notin> room_id ` set rs"
  then have "filter (\<lambda>p. room_id (fst p) = rid) (zip rs gs) = []"
    by (auto simp: filter_empty_conv dest: set_zip_leftD)
  then show ?thesis by (simp add: load_of_def)
qed

lemma same_room:
  "distinct (map room_id rooms) \<Longrightarrow> a \<in> set rooms \<Longrightarrow> b \<in> set rooms \<Longrightarrow>
   room_id a = room_id b \<Longrightarrow> a = b"
  by (meson distinct_map inj_onD)

lemma fits_with_grow: "fits_with room P g \<Longrightarrow> fits_with room (P @ g) []"
  by (simp add: fits_with_def group_years_def)

lemma feasible_iff:
  assumes dr: "distinct (map room_id rooms)"
  shows "length rs = length gs \<Longrightarrow> set rs \<subseteq> set rooms \<Longrightarrow>
    (\<forall>room \<in> set rooms. st (room_id room) = status_of room (pre (room_id room))) \<Longrightarrow>
    feasible rs gs st
    \<longleftrightarrow> (\<forall>room \<in> set rs. fits_with room (pre (room_id room)) (load_of rs gs (room_id room)))"
proof (induction rs gs arbitrary: st pre rule: list_induct2)
  case Nil
  show ?case by simp
next
  case (Cons r rs g gs)
  let ?rid = "room_id r"
  let ?P = "pre ?rid"
  define st' where "st' = st(?rid := bt_update (st ?rid) g)"
  define pre' where "pre' = pre(?rid := ?P @ g)"
  have r: "r \<in> set rooms" and rs: "set rs \<subseteq> set rooms"
    using Cons.prems(1) by auto
  have str: "st ?rid = status_of r ?P"
    using Cons.prems(2) r by blast
  have m': "\<forall>room \<in> set rooms. st' (room_id room) = status_of room (pre' (room_id room))"
  proof
    fix room assume room: "room \<in> set rooms"
    show "st' (room_id room) = status_of room (pre' (room_id room))"
    proof (cases "room_id room = ?rid")
      case True
      with dr room r have "room = r" by (rule same_room)
      then show ?thesis
        by (simp add: st'_def pre'_def str bt_update_status_of)
    next
      case False
      with Cons.prems(2) room show ?thesis
        by (simp add: st'_def pre'_def)
    qed
  qed
  have IH: "feasible rs gs st'
      \<longleftrightarrow> (\<forall>room \<in> set rs. fits_with room (pre' (room_id room)) (load_of rs gs (room_id room)))"
    using Cons.IH [OF rs m'] .
  have head: "feasible (r # rs) (g # gs) st \<longleftrightarrow> fits_with r ?P g \<and> feasible rs gs st'"
    by (simp add: st'_def str room_accepts_status_of)
  have other: "fits_with room (pre' (room_id room)) (load_of rs gs (room_id room))
      \<longleftrightarrow> fits_with room (pre (room_id room)) (load_of (r # rs) (g # gs) (room_id room))"
    if "room_id room \<noteq> ?rid" for room
    using that by (simp add: pre'_def load_of_Cons)
  have own: "load_of (r # rs) (g # gs) ?rid = g @ load_of rs gs ?rid"
    by (simp add: load_of_Cons)
  show ?case
  proof
    assume f: "feasible (r # rs) (g # gs) st"
    with head IH have fg: "fits_with r ?P g"
      and tl: "\<forall>room \<in> set rs. fits_with room (pre' (room_id room)) (load_of rs gs (room_id room))"
      by simp_all
    have x: "fits_with r (?P @ g) (load_of rs gs ?rid)"
    proof (cases "r \<in> set rs")
      case True
      with tl show ?thesis by (auto simp: pre'_def)
    next
      case False
      have "?rid \<notin> room_id ` set rs"
      proof
        assume "?rid \<in> room_id ` set rs"
        then obtain q where q: "q \<in> set rs" "room_id q = ?rid" by auto
        with dr rs r have "q = r" by (intro same_room [of rooms]) auto
        with q False show False by simp
      qed
      then have "load_of rs gs ?rid = []" by (rule load_of_unused)
      with fits_with_grow [OF fg] show ?thesis by simp
    qed
    have ga: "group_years g \<subseteq> allowed_years r" using fg by (simp add: fits_with_def)
    have rr: "fits_with r ?P (load_of (r # rs) (g # gs) ?rid)"
      unfolding own using x ga fits_with_shift by blast
    show "\<forall>room \<in> set (r # rs). fits_with room (pre (room_id room))
        (load_of (r # rs) (g # gs) (room_id room))"
    proof
      fix room assume room: "room \<in> set (r # rs)"
      show "fits_with room (pre (room_id room)) (load_of (r # rs) (g # gs) (room_id room))"
      proof (cases "room_id room = ?rid")
        case True
        with dr r rs room have "room = r" by (intro same_room [of rooms]) auto
        with rr show ?thesis by simp
      next
        case False
        with room have "room \<in> set rs" by auto
        with tl other [OF False] show ?thesis by blast
      qed
    qed
  next
    assume v: "\<forall>room \<in> set (r # rs). fits_with room (pre (room_id room))
        (load_of (r # rs) (g # gs) (room_id room))"
    then have rr: "fits_with r ?P (g @ load_of rs gs ?rid)"
      using own by simp
    then have fg: "fits_with r ?P g" by (rule fits_with_prefix)
    from rr have x: "fits_with r (?P @ g) (load_of rs gs ?rid)"
      using fits_with_shift by blast
    have "\<forall>room \<in> set rs. fits_with room (pre' (room_id room)) (load_of rs gs (room_id room))"
    proof
      fix room assume room: "room \<in> set rs"
      show "fits_with room (pre' (room_id room)) (load_of rs gs (room_id room))"
      proof (cases "room_id room = ?rid")
        case True
        with dr r rs room have "room = r" by (intro same_room [of rooms]) auto
        with x show ?thesis by (simp add: pre'_def)
      next
        case False
        with v room other [OF False] show ?thesis by simp
      qed
    qed
    with head IH fg show "feasible (r # rs) (g # gs) st" by simp
  qed
qed

subsection \<open>Room assignment: the first-fit pass\<close>

lemma room_accepts_base: "room_accepts room (base_status s) g = room_accepts room s g"
  by (simp add: room_accepts_def base_status_def)

lemma base_status_ffd_update: "base_status (ffd_update s g) = bt_update (base_status s) g"
  by (simp add: base_status_def ffd_update_def bt_update_def)

lemma ffd_place_Some:
  "ffd_place g todo st = Some st' \<Longrightarrow>
   \<exists>room \<in> set todo. room_accepts room (fst st (room_id room)) g
     \<and> st' = ((fst st)(room_id room := ffd_update (fst st (room_id room)) g),
              dict_append (snd st) (room_id room) (map sid g))"
proof (induction todo)
  case Nil
  then show ?case by simp
next
  case (Cons room rest)
  show ?case
  proof (cases "room_accepts room (fst st (room_id room)) g")
    case True
    with Cons.prems have "st' = ((fst st)(room_id room := ffd_update (fst st (room_id room)) g),
              dict_append (snd st) (room_id room) (map sid g))"
      by (auto simp add: ffd_place_Cons simp del: ffd_place.simps)
    moreover have "room \<in> set (room # rest)" by simp
    ultimately show ?thesis using True by blast
  next
    case False
    with Cons.prems have "ffd_place g rest st = Some st'"
      by (simp add: ffd_place_Cons del: ffd_place.simps)
    from Cons.IH [OF this] show ?thesis by auto
  qed
qed

lemma ffd_place_None:
  "ffd_place g todo st = None \<Longrightarrow> \<forall>room \<in> set todo. \<not> room_accepts room (fst st (room_id room)) g"
proof (induction todo)
  case Nil
  show ?case by simp
next
  case (Cons room rest)
  show ?case
  proof (cases "room_accepts room (fst st (room_id room)) g")
    case True
    with Cons.prems show ?thesis by (simp add: ffd_place_Cons del: ffd_place.simps)
  next
    case False
    with Cons.prems have "ffd_place g rest st = None"
      by (simp add: ffd_place_Cons del: ffd_place.simps)
    from Cons.IH [OF this] False show ?thesis by simp
  qed
qed

lemma base_status_upd:
  "base_status \<circ> (st(rid := ffd_update (st rid) g))
     = (base_status \<circ> st)(rid := bt_update ((base_status \<circ> st) rid) g)"
  by (auto simp: fun_eq_iff base_status_ffd_update)

lemma ffd_groups_Some:
  "ffd_groups rooms gs s = Some s' \<Longrightarrow> distinct (map fst (snd s)) \<Longrightarrow>
   distinct (map fst (snd s'))
   \<and> (\<exists>rs. set rs \<subseteq> set rooms \<and> feasible rs gs (base_status \<circ> fst s)
         \<and> (\<forall>rid. dict_get (snd s') rid = dict_get (snd s) rid @ map sid (load_of rs gs rid))
         \<and> mset (concat (map snd (snd s')))
             = mset (concat (map snd (snd s))) + mset (map sid (concat gs)))"
proof (induction gs arbitrary: s)
  case Nil
  then have e: "s' = s" by simp
  have "feasible [] [] (base_status \<circ> fst s)" by simp
  with Nil e show ?case by (auto intro!: exI [of _ "[]"])
next
  case (Cons g gs)
  let ?sorted = "sort_key (\<lambda>x. - remaining_capacity (fst s (room_id x))) rooms"
  from Cons.prems(1) obtain s1 where p: "ffd_place g ?sorted s = Some s1"
    and rest: "ffd_groups rooms gs s1 = Some s'"
    by (auto simp: Let_def split: option.splits)
  from ffd_place_Some [OF p] obtain room where room: "room \<in> set rooms"
    and acc: "room_accepts room (fst s (room_id room)) g"
    and s1: "s1 = ((fst s)(room_id room := ffd_update (fst s (room_id room)) g),
              dict_append (snd s) (room_id room) (map sid g))"
    by auto
  have d1: "distinct (map fst (snd s1))"
    using Cons.prems(2) by (simp add: s1 distinct_keys_dict_append)
  from Cons.IH [OF rest d1] obtain rs where dk: "distinct (map fst (snd s'))"
    and sub: "set rs \<subseteq> set rooms"
    and f: "feasible rs gs (base_status \<circ> fst s1)"
    and get: "\<forall>rid. dict_get (snd s') rid = dict_get (snd s1) rid @ map sid (load_of rs gs rid)"
    and ms: "mset (concat (map snd (snd s')))
             = mset (concat (map snd (snd s1))) + mset (map sid (concat gs))"
    by blast
  have b: "base_status \<circ> fst s1
      = (base_status \<circ> fst s)(room_id room := bt_update ((base_status \<circ> fst s) (room_id room)) g)"
    by (simp only: s1 fst_conv base_status_upd)
  have f': "feasible (room # rs) (g # gs) (base_status \<circ> fst s)"
    using acc f unfolding b by (simp add: room_accepts_base)
  have sub': "set (room # rs) \<subseteq> set rooms" using room sub by simp
  have get': "\<forall>rid. dict_get (snd s') rid
      = dict_get (snd s) rid @ map sid (load_of (room # rs) (g # gs) rid)"
    using get by (simp add: s1 dict_get_dict_append load_of_Cons)
  have ms': "mset (concat (map snd (snd s')))
      = mset (concat (map snd (snd s))) + mset (map sid (concat (g # gs)))"
    using ms by (simp add: s1 mset_concat_dict_append)
  from dk sub' f' get' ms' show ?case by blast
qed

text \<open>The bookkeeping before any placement.\<close>

lemma bt_room_status_at:
  "distinct (map room_id rooms) \<Longrightarrow> room \<in> set rooms \<Longrightarrow>
   bt_room_status rooms (room_id room) = status_of room []"
  unfolding bt_room_status_def
proof (induction rooms rule: rev_induct)
  case Nil
  then show ?case by simp
next
  case (snoc x xs)
  show ?case
  proof (cases "room = x")
    case True
    then show ?thesis
      by (simp add: status_of_def group_years_def group_subjects_def group_branches_def
          group_departments_def)
  next
    case False
    with snoc.prems have m: "room \<in> set xs" and d: "distinct (map room_id xs)"
      and n: "room_id x \<noteq> room_id room"
      by auto
    from snoc.IH [OF d m] n show ?thesis by simp
  qed
qed

lemma base_ffd_room_status: "base_status (ffd_room_status rooms rid) = bt_room_status rooms rid"
  unfolding bt_room_status_def ffd_room_status_def
  by (induction rooms rule: rev_induct) (simp_all add: base_status_def)

lemma base_ffd_room_status_comp: "base_status \<circ> ffd_room_status rooms = bt_room_status rooms"
  by (simp add: fun_eq_iff base_ffd_room_status)

lemma feasible_initial:
  assumes dr: "distinct (map room_id rooms)"
  shows "set rs \<subseteq> set rooms \<and> feasible rs gs (bt_room_status rooms) \<longleftrightarrow> valid_assignment rooms gs rs"
proof (cases "length rs = length gs \<and> set rs \<subseteq> set rooms")
  case True
  then have l: "length rs = length gs" and s: "set rs \<subseteq> set rooms" by simp_all
  have i: "\<forall>room \<in> set rooms. bt_room_status rooms (room_id room) = status_of room ((\<lambda>_. []) (room_id room))"
    using bt_room_status_at [OF dr] by simp
  from feasible_iff [OF dr l s i]
  have "feasible rs gs (bt_room_status rooms)
      \<longleftrightarrow> (\<forall>room \<in> set rs. room_fits room (load_of rs gs (room_id room)))"
    by (simp add: fits_with_Nil)
  with l s show ?thesis by (simp add: valid_assignment_def)
next
  case False
  then show ?thesis
    using feasible_length [of rs gs "bt_room_status rooms"] by (auto simp: valid_assignment_def)
qed

lemma load_of_subset: "set (load_of rs gs rid) \<subseteq> set (concat gs)"
  by (auto simp: load_of_def dest: set_zip_rightD)

lemma mset_concat_nonempty:
  "mset (concat (map snd (filter (\<lambda>(rid, ids). ids \<noteq> []) asg))) = mset (concat (map snd asg))"
  by (induction asg) auto

lemma assemble:
  assumes dr: "distinct (map room_id rooms)" and v: "valid_assignment rooms gs rs"
    and dk: "distinct (map fst asg)"
    and g: "\<forall>rid. dict_get asg rid = map sid (load_of rs gs rid)"
    and m: "mset (concat (map snd asg)) = mset (map sid (concat gs))"
  shows "sound_result rooms gs (filter (\<lambda>(rid, ids). ids \<noteq> []) asg)"
proof -
  let ?res = "filter (\<lambda>(rid, ids). ids \<noteq> []) asg"
  have 1: "distinct (map fst ?res)" using dk by (rule distinct_map_filter)
  have 2: "mset (concat (map snd ?res)) = mset (map sid (concat gs))"
    using m by (simp only: mset_concat_nonempty)
  have 3: "ids \<noteq> [] \<and> (\<exists>room \<in> set rooms. room_id room = rid
               \<and> (\<exists>L. set L \<subseteq> set (concat gs) \<and> map sid L = ids \<and> room_fits room L))"
    if "(rid, ids) \<in> set ?res" for rid ids
  proof -
    from that have mem: "(rid, ids) \<in> set asg" and ne: "ids \<noteq> []" by simp_all
    from dk mem have "map_of asg rid = Some ids" by (rule map_of_is_SomeI)
    then have "dict_get asg rid = ids" by (simp add: dict_get_def)
    with g have ids: "map sid (load_of rs gs rid) = ids" by simp
    with ne have "load_of rs gs rid \<noteq> []" by auto
    then have "rid \<in> room_id ` set rs" using load_of_unused [of rid rs gs] by blast
    then obtain room where r: "room \<in> set rs" "room_id room = rid" by auto
    from v r have fit: "room_fits room (load_of rs gs rid)" and rm: "room \<in> set rooms"
      by (auto simp: valid_assignment_def)
    from ne rm r(2) ids fit load_of_subset [of rs gs rid] show ?thesis by blast
  qed
  from 1 2 3 show ?thesis unfolding sound_result_def by blast
qed

subsection \<open>Room assignment: students, reordering and the two passes\<close>

lemma Student_init_sid: "Student_init to_int i md = Inr s \<Longrightarrow> sid s = i"
  by (auto simp: Student_init_def split: sum.splits)

lemma make_students_Inr:
  "make_students to_int student_metadata ids = Inr L \<Longrightarrow>
   map sid L = ids \<and> (\<forall>s \<in> set L. built_from to_int student_metadata s)"
proof (induction ids arbitrary: L)
  case Nil
  then show ?case by simp
next
  case (Cons i ids)
  from Cons.prems obtain md s L' where md: "student_metadata i = Some md"
    and s: "Student_init to_int i md = Inr s"
    and L': "make_students to_int student_metadata ids = Inr L'"
    and L: "L = s # L'"
    by (auto split: option.splits sum.splits)
  from Student_init_sid [OF s] have i: "sid s = i" .
  have "built_from to_int student_metadata s"
    using md s i by (simp add: built_from_def)
  with Cons.IH [OF L'] L i show ?case by simp
qed

lemma make_students_rebuild:
  "\<forall>s \<in> set L. built_from to_int student_metadata s \<Longrightarrow>
   make_students to_int student_metadata (map sid L) = Inr L"
proof (induction L)
  case Nil
  show ?case by simp
next
  case (Cons s L)
  then have b: "built_from to_int student_metadata s"
    and r: "make_students to_int student_metadata (map sid L) = Inr L"
    by simp_all
  from b obtain md where "student_metadata (sid s) = Some md" "Student_init to_int (sid s) md = Inr s"
    by (auto simp: built_from_def split: option.splits)
  with r show ?case by simp
qed

lemma make_student_groups_Inr:
  "make_student_groups to_int student_metadata groups = Inr sgs \<Longrightarrow>
   map sid (concat (map snd sgs)) = concat (map snd groups)
   \<and> (\<forall>s \<in> set (concat (map snd sgs)). built_from to_int student_metadata s)"
proof (induction groups arbitrary: sgs)
  case Nil
  then show ?case by simp
next
  case (Cons p groups)
  obtain color ids where p: "p = (color, ids)" by (cases p)
  from Cons.prems p obtain L sgs' where L: "make_students to_int student_metadata ids = Inr L"
    and r: "make_student_groups to_int student_metadata groups = Inr sgs'"
    and sgs: "sgs = (color, L) # sgs'"
    by (auto split: sum.splits)
  from make_students_Inr [OF L] Cons.IH [OF r] show ?case
    by (auto simp: sgs p)
qed

text \<open>Reordering the groups.\<close>

lemma mset_concat_cong: "mset xss = mset yss \<Longrightarrow> mset (concat xss) = mset (concat yss)"
proof -
  assume e: "mset xss = mset yss"
  have "mset (concat xss) = sum_mset (image_mset mset (mset xss))"
    by (simp add: mset_concat flip: sum_mset_sum_list)
  also have "\<dots> = sum_mset (image_mset mset (mset yss))" by (simp only: e)
  also have "\<dots> = mset (concat yss)"
    by (simp add: mset_concat flip: sum_mset_sum_list)
  finally show ?thesis .
qed

lemma sound_result_perm:
  assumes "mset gs' = mset gs" and "sound_result rooms gs' res"
  shows "sound_result rooms gs res"
proof -
  from assms(1) have m: "mset (concat gs') = mset (concat gs)" by (rule mset_concat_cong)
  then have s: "set (concat gs') = set (concat gs)" by (rule mset_eq_setD)
  from m have i: "mset (map sid (concat gs')) = mset (map sid (concat gs))" by simp
  from assms(2) show ?thesis unfolding sound_result_def s i .
qed

lemma room_fits_mset: "mset L = mset L' \<Longrightarrow> room_fits room L = room_fits room L'"
proof -
  assume e: "mset L = mset L'"
  then have l: "length L = length L'" by (rule mset_eq_length)
  from e have s: "set L = set L'" by (rule mset_eq_setD)
  show ?thesis
    by (simp add: room_fits_def l group_years_def group_departments_def group_subjects_def
        group_branches_def s)
qed

lemma load_of_mset:
  assumes "mset (zip rs' gs') = mset (zip rs gs)"
  shows "mset (load_of rs' gs' rid) = mset (load_of rs gs rid)"
proof -
  let ?P = "\<lambda>p. room_id (fst p) = rid"
  have "mset (map snd (filter ?P (zip rs' gs'))) = mset (map snd (filter ?P (zip rs gs)))"
    using assms by simp
  then show ?thesis unfolding load_of_def by (rule mset_concat_cong)
qed

lemma valid_assignment_perm:
  assumes p: "mset gs' = mset gs" and v: "valid_assignment rooms gs rs"
  shows "\<exists>rs'. valid_assignment rooms gs' rs'"
proof -
  from v have l: "length gs = length rs" and sub: "set rs \<subseteq> set rooms"
    and fit: "\<forall>room \<in> set rs. room_fits room (load_of rs gs (room_id room))"
    by (simp_all add: valid_assignment_def)
  from ex_mset_zip_left [OF l p] obtain rs' where l': "length rs' = length gs'"
    and z: "mset (zip gs' rs') = mset (zip gs rs)"
    by blast
  have "mset (zip rs' gs') = image_mset (\<lambda>(x, y). (y, x)) (mset (zip gs' rs'))"
    by (subst zip_commute) simp
  also have "\<dots> = image_mset (\<lambda>(x, y). (y, x)) (mset (zip gs rs))" by (simp only: z)
  also have "\<dots> = mset (zip rs gs)" by (subst (2) zip_commute) simp
  finally have z': "mset (zip rs' gs') = mset (zip rs gs)" .
  then have "mset (map fst (zip rs' gs')) = mset (map fst (zip rs gs))" by simp
  then have "mset rs' = mset rs" using l l' by simp
  then have s: "set rs' = set rs" by (rule mset_eq_setD)
  have "room_fits room (load_of rs' gs' (room_id room))" if "room \<in> set rs'" for room
  proof -
    from that s fit have "room_fits room (load_of rs gs (room_id room))" by simp
    then show ?thesis using room_fits_mset [OF load_of_mset [OF z'], of room "room_id room"] by simp
  qed
  with l' s sub have "valid_assignment rooms gs' rs'" by (simp add: valid_assignment_def)
  then show ?thesis ..
qed

lemma valid_assignment_perm_iff:
  "mset gs' = mset gs \<Longrightarrow> (\<exists>rs. valid_assignment rooms gs' rs) \<longleftrightarrow> (\<exists>rs. valid_assignment rooms gs rs)"
  using valid_assignment_perm [of gs' gs rooms] valid_assignment_perm [of gs gs' rooms] by metis

text \<open>Ids that differ across the groups.\<close>

lemma disjoint_ids_distinct:
  "distinct (map sid (concat gs)) \<Longrightarrow> S \<inter> sid ` set (concat gs) = {} \<Longrightarrow> disjoint_ids S gs"
proof (induction gs arbitrary: S)
  case Nil
  show ?case by simp
next
  case (Cons g gs)
  from Cons.prems have 1: "set (map sid g) \<inter> S = {}" by auto
  from Cons.prems have 2: "distinct (map sid (concat gs))" by simp
  from Cons.prems have 3: "(S \<union> set (map sid g)) \<inter> sid ` set (concat gs) = {}" by auto
  from 1 Cons.IH [OF 2 3] show ?case by simp
qed

text \<open>The two passes.\<close>

lemma first_fit_decreasing_Some:
  assumes dr: "distinct (map room_id rooms)"
    and r: "first_fit_decreasing sgs rooms = Some res"
  shows "sound_result rooms (map snd sgs) res \<and> (\<exists>rs. valid_assignment rooms (map snd sgs) rs)"
proof -
  let ?gs = "sort_key (\<lambda>x. - int (length x)) (map snd sgs)"
  from r obtain st where st: "ffd_groups rooms ?gs (ffd_room_status rooms, []) = Some st"
    and res: "res = filter (\<lambda>(rid, s_ids). s_ids \<noteq> []) (snd st)"
    by (auto simp: first_fit_decreasing_def Let_def split: option.splits)
  have "distinct (map fst (snd (ffd_room_status rooms, [] :: (string \<times> string list) list)))" by simp
  from ffd_groups_Some [OF st this] obtain rs where dk: "distinct (map fst (snd st))"
    and sub: "set rs \<subseteq> set rooms"
    and f: "feasible rs ?gs (base_status \<circ> ffd_room_status rooms)"
    and get: "\<forall>rid. dict_get (snd st) rid = map sid (load_of rs ?gs rid)"
    and ms: "mset (concat (map snd (snd st))) = mset (map sid (concat ?gs))"
    by (auto simp: dict_get_def)
  from sub f have v: "valid_assignment rooms ?gs rs"
    using feasible_initial [OF dr, of rs ?gs] by (simp add: base_ffd_room_status_comp)
  have p: "mset ?gs = mset (map snd sgs)" by (rule mset_sort)
  from assemble [OF dr v dk get ms] have "sound_result rooms ?gs res" by (simp only: res)
  with p have 1: "sound_result rooms (map snd sgs) res" by (rule sound_result_perm)
  from v have "\<exists>rs. valid_assignment rooms ?gs rs" ..
  then have 2: "\<exists>rs. valid_assignment rooms (map snd sgs) rs"
    using valid_assignment_perm_iff [OF p, of rooms] by simp
  from 1 2 show ?thesis ..
qed

lemma backtracking_assign_result:
  assumes dr: "distinct (map room_id rooms)"
    and di: "distinct (map sid (concat (map snd sgs)))"
  shows "if \<exists>rs. valid_assignment rooms (map snd sgs) rs
         then \<exists>res. backtracking_assign sgs rooms = Inr res \<and> sound_result rooms (map snd sgs) res
         else backtracking_assign sgs rooms
              = Inl (ValueError ''No valid room assignment possible with current constraints'')"
proof -
  let ?gs = "sort_key (\<lambda>x. - int (length x)) (map snd sgs)"
  let ?s = "(bt_room_status rooms, [] :: (string \<times> string list) list)"
  let ?r = "dfs rooms ?gs rooms ?s"
  have p: "mset ?gs = mset (map snd sgs)" by (rule mset_sort)
  then have "mset (concat ?gs) = mset (concat (map snd sgs))" by (rule mset_concat_cong)
  then have "mset (map sid (concat ?gs)) = mset (map sid (concat (map snd sgs)))" by simp
  with di have "distinct (map sid (concat ?gs))" using mset_eq_imp_distinct_iff by blast
  then have "disjoint_ids {} ?gs" by (rule disjoint_ids_distinct) simp
  then have dj: "disjoint_ids (assigned_ids (snd ?s)) ?gs" by (simp add: assigned_ids_def)
  have "set rooms \<subseteq> set rooms" "distinct (map fst (snd ?s))" by simp_all
  from dfs_correct [OF dr this dj] have post: "dfs_post rooms ?gs rooms ?s ?r" .
  show ?thesis
  proof (cases "fst ?r")
    case True
    with post obtain rs where dk: "distinct (map fst (snd (snd ?r)))"
      and sub: "set rs \<subseteq> set rooms" and f: "feasible rs ?gs (bt_room_status rooms)"
      and get: "\<forall>rid. dict_get (snd (snd ?r)) rid = map sid (load_of rs ?gs rid)"
      and ms: "mset (concat (map snd (snd (snd ?r)))) = mset (map sid (concat ?gs))"
      unfolding dfs_post_def by (auto simp: dict_get_def)
    from sub f have v: "valid_assignment rooms ?gs rs"
      using feasible_initial [OF dr, of rs ?gs] by simp
    from assemble [OF dr v dk get ms]
    have "sound_result rooms ?gs (filter (\<lambda>(rid, ids). ids \<noteq> []) (snd (snd ?r)))" .
    with p have s: "sound_result rooms (map snd sgs) (filter (\<lambda>(rid, ids). ids \<noteq> []) (snd (snd ?r)))"
      by (rule sound_result_perm)
    from v have "\<exists>rs. valid_assignment rooms ?gs rs" ..
    then have e: "\<exists>rs. valid_assignment rooms (map snd sgs) rs"
      using valid_assignment_perm_iff [OF p, of rooms] by simp
    have "backtracking_assign sgs rooms = Inr (filter (\<lambda>(rid, ids). ids \<noteq> []) (snd (snd ?r)))"
      using True by (simp add: backtracking_assign_def Let_def)
    with s e show ?thesis by simp
  next
    case False
    with post have no: "\<not> (\<exists>r' rs. r' \<in> set rooms \<and> set rs \<subseteq> set rooms
        \<and> feasible (r' # rs) ?gs (bt_room_status rooms))"
      unfolding dfs_post_def by simp
    have ne: "?gs \<noteq> []"
    proof
      assume "?gs = []"
      then have "fst ?r" by simp
      with False show False ..
    qed
    have "\<not> (\<exists>rs. valid_assignment rooms ?gs rs)"
    proof
      assume "\<exists>rs. valid_assignment rooms ?gs rs"
      then obtain rs where v: "valid_assignment rooms ?gs rs" ..
      then have fs: "set rs \<subseteq> set rooms \<and> feasible rs ?gs (bt_room_status rooms)"
        using feasible_initial [OF dr, of rs ?gs] by simp
      from v have "length rs = length ?gs" by (simp add: valid_assignment_def)
      with ne obtain r' rs' where rs: "rs = r' # rs'" by (cases rs) auto
      from fs have "r' \<in> set rooms \<and> set rs' \<subseteq> set rooms \<and> feasible (r' # rs') ?gs (bt_room_status rooms)"
        by (simp add: rs)
      with no show False by blast
    qed
    then have e: "\<not> (\<exists>rs. valid_assignment rooms (map snd sgs) rs)"
      using valid_assignment_perm_iff [OF p, of rooms] by simp
    have "backtracking_assign sgs rooms
        = Inl (ValueError ''No valid room assignment possible with current constraints'')"
      using False by (simp add: backtracking_assign_def Let_def)
    with e show ?thesis by simp
  qed
qed

subsection \<open>Room assignment: the entry point\<close>

lemma room_id_RoomConfig_init: "map room_id (map RoomConfig_init rooms_config) = map cfg_room_name rooms_config"
  by (simp add: RoomConfig_init_def)

lemma capacity_RoomConfig_init:
  "(\<Sum>room \<leftarrow> map RoomConfig_init rooms_config. capacity room) = sum_list (map cfg_capacity rooms_config)"
  by (induction rooms_config) (simp_all add: RoomConfig_init_def)

lemma total_students:
  "(\<Sum>students \<leftarrow> gs. int (length students)) = int (length (concat gs))"
  by (induction gs) simp_all

lemma sound_result_layout:
  assumes sg: "make_student_groups to_int student_metadata groups = Inr sgs"
    and s: "sound_result (map RoomConfig_init rooms_config) (map snd sgs) res"
  shows "full_valid_layout to_int groups student_metadata rooms_config res"
proof -
  from make_student_groups_Inr [OF sg]
  have ids: "map sid (concat (map snd sgs)) = concat (map snd groups)"
    and b: "\<forall>s \<in> set (concat (map snd sgs)). built_from to_int student_metadata s"
    by simp_all
  from s have 1: "distinct (map fst res)" by (simp add: sound_result_def)
  from s have 2: "mset (concat (map snd res)) = mset (concat (map snd groups))"
    unfolding sound_result_def ids by simp
  have 3: "\<forall>p \<in> set res. case p of (rid, ids) \<Rightarrow> ids \<noteq> []
          \<and> (\<exists>config \<in> set rooms_config. cfg_room_name config = rid
               \<and> (\<exists>L. make_students to_int student_metadata ids = Inr L
                    \<and> room_fits (RoomConfig_init config) L))"
  proof (rule ballI)
    fix p assume m: "p \<in> set res"
    obtain rid ids where p: "p = (rid, ids)" by (cases p)
    from s have all: "\<forall>p \<in> set res. case p of (rid, ids) \<Rightarrow> ids \<noteq> []
          \<and> (\<exists>room \<in> set (map RoomConfig_init rooms_config). room_id room = rid
               \<and> (\<exists>L. set L \<subseteq> set (concat (map snd sgs)) \<and> map sid L = ids \<and> room_fits room L))"
      unfolding sound_result_def by (elim conjE)
    from bspec [OF all m] have x: "ids \<noteq> []
          \<and> (\<exists>room \<in> set (map RoomConfig_init rooms_config). room_id room = rid
               \<and> (\<exists>L. set L \<subseteq> set (concat (map snd sgs)) \<and> map sid L = ids \<and> room_fits room L))"
      unfolding p prod.case .
    then have ne: "ids \<noteq> []" ..
    from x obtain room L where rm: "room \<in> set (map RoomConfig_init rooms_config)"
      and r: "room_id room = rid"
      and L: "set L \<subseteq> set (concat (map snd sgs))" "map sid L = ids"
      and f: "room_fits room L"
      by blast
    from rm obtain config where c: "config \<in> set rooms_config" and rc: "room = RoomConfig_init config"
      by auto
    from L(1) b have "\<forall>s \<in> set L. built_from to_int student_metadata s" by blast
    then have "make_students to_int student_metadata (map sid L) = Inr L"
      by (rule make_students_rebuild)
    then have mk: "make_students to_int student_metadata ids = Inr L" by (simp only: L(2))
    from r have n: "cfg_room_name config = rid" by (simp add: rc RoomConfig_init_def)
    from f have f': "room_fits (RoomConfig_init config) L" by (simp only: rc)
    from mk f' have "\<exists>L. make_students to_int student_metadata ids = Inr L
                    \<and> room_fits (RoomConfig_init config) L"
      by blast
    with c n have "\<exists>config \<in> set rooms_config. cfg_room_name config = rid
               \<and> (\<exists>L. make_students to_int student_metadata ids = Inr L
                    \<and> room_fits (RoomConfig_init config) L)"
      by blast
    with ne have "ids \<noteq> []
          \<and> (\<exists>config \<in> set rooms_config. cfg_room_name config = rid
               \<and> (\<exists>L. make_students to_int student_metadata ids = Inr L
                    \<and> room_fits (RoomConfig_init config) L))"
      by (rule conjI)
    then show "case p of (rid, ids) \<Rightarrow> ids \<noteq> []
          \<and> (\<exists>config \<in> set rooms_config. cfg_room_name config = rid
               \<and> (\<exists>L. make_students to_int student_metadata ids = Inr L
                    \<and> room_fits (RoomConfig_init config) L))"
      unfolding p prod.case .
  qed
  show ?thesis unfolding full_valid_layout_def using 1 2 3 by (intro conjI)
qed

lemma assign_rooms_outcome:
  assumes dn: "distinct (map cfg_room_name rooms_config)"
    and di: "distinct (concat (map snd groups))"
    and sg: "make_student_groups to_int student_metadata groups = Inr sgs"
  shows "if int (length (concat (map snd groups))) > sum_list (map cfg_capacity rooms_config)
         then assign_rooms_to_groups to_int groups student_metadata rooms_config
              = Inl (ValueError (''Not enough room capacity. Need ''
                       @ str_int (int (length (concat (map snd groups))))
                       @ '' seats, have '' @ str_int (sum_list (map cfg_capacity rooms_config))))
         else if \<exists>rs. valid_assignment (map RoomConfig_init rooms_config) (map snd sgs) rs
         then \<exists>res. assign_rooms_to_groups to_int groups student_metadata rooms_config = Inr res
                \<and> full_valid_layout to_int groups student_metadata rooms_config res
         else assign_rooms_to_groups to_int groups student_metadata rooms_config
              = Inl (ValueError ''No valid room assignment possible with current constraints'')"
proof -
  let ?rooms = "map RoomConfig_init rooms_config"
  let ?total = "int (length (concat (map snd groups)))"
  let ?cap = "sum_list (map cfg_capacity rooms_config)"
  let ?result = "assign_rooms_to_groups to_int groups student_metadata rooms_config"
  from make_student_groups_Inr [OF sg]
  have ids: "map sid (concat (map snd sgs)) = concat (map snd groups)" by simp
  have "length (concat (map snd sgs)) = length (map sid (concat (map snd sgs)))" by simp
  also have "\<dots> = length (concat (map snd groups))" by (simp only: ids)
  finally have t: "(\<Sum>students \<leftarrow> map snd sgs. int (length students)) = ?total"
    by (simp only: total_students)
  have c: "(\<Sum>room \<leftarrow> ?rooms. capacity room) = ?cap" by (rule capacity_RoomConfig_init)
  have dr: "distinct (map room_id ?rooms)" using dn by (simp only: room_id_RoomConfig_init)
  have ds: "distinct (map sid (concat (map snd sgs)))" using di by (simp only: ids)
  have unfold: "?result =
      (if ?total > ?cap then
         Inl (ValueError (''Not enough room capacity. Need '' @ str_int ?total
                           @ '' seats, have '' @ str_int ?cap))
       else (case first_fit_decreasing sgs ?rooms of
               Some ffd_result \<Rightarrow> Inr ffd_result
             | None \<Rightarrow> backtracking_assign sgs ?rooms))"
    by (simp only: assign_rooms_to_groups_def Let_def sg sum.case t c)
  show ?thesis
  proof (cases "?total > ?cap")
    case True
    with unfold show ?thesis by simp
  next
    case False
    show ?thesis
    proof (cases "first_fit_decreasing sgs ?rooms")
      case (Some res)
      from first_fit_decreasing_Some [OF dr Some]
      have s: "sound_result ?rooms (map snd sgs) res"
        and v: "\<exists>rs. valid_assignment ?rooms (map snd sgs) rs"
        by simp_all
      from sound_result_layout [OF sg s]
      have "full_valid_layout to_int groups student_metadata rooms_config res" .
      moreover have "?result = Inr res" using unfold False Some by simp
      ultimately show ?thesis using False v by simp
    next
      case None
      then have r: "?result = backtracking_assign sgs ?rooms" using unfold False by simp
      show ?thesis
      proof (cases "\<exists>rs. valid_assignment ?rooms (map snd sgs) rs")
        case True
        with backtracking_assign_result [OF dr ds] obtain res
          where b: "backtracking_assign sgs ?rooms = Inr res"
            and s: "sound_result ?rooms (map snd sgs) res"
          by auto
        from sound_result_layout [OF sg s]
        have "full_valid_layout to_int groups student_metadata rooms_config res" .
        with b r True False show ?thesis by simp
      next
        case no: False
        with backtracking_assign_result [OF dr ds]
        have "backtracking_assign sgs ?rooms
            = Inl (ValueError ''No valid room assignment possible with current constraints'')"
          by simp
        with r no False show ?thesis by simp
      qed
    qed
  qed
qed

subsection \<open>Room assignment: results\<close>

lemma demo_catalog_names: "distinct (map cfg_room_name demo_catalog)"
  by (simp add: demo_catalog_def demo_room_dict_def)

lemma demo_groups_ids: "distinct (concat (map snd [(0::nat, [''a'', ''b'']), (1, [''c'', ''d''])]))"
  by simp

lemma demo_assignment:
  "assign_rooms_to_groups demo_int [(0, [''a'', ''b'']), (1, [''c'', ''d''])] demo_student_metadata
     demo_catalog
   = Inr [(''R1'', [''c'', ''d'']), (''R2'', [''a'', ''b''])]"
  by code_simp

lemma demo_first_fit_fails:
  "first_fit_decreasing
     [(0, [demo_student ''a'' 1 ''Maths'', demo_student ''b'' 1 ''Maths'']),
      (1, [demo_student ''c'' 2 ''Maths'', demo_student ''d'' 2 ''Maths''])]
     (map RoomConfig_init demo_catalog) = None"
  by code_simp

lemma demo_student_groups:
  "make_student_groups demo_int demo_student_metadata [(0, [''a'', ''b'']), (1, [''c'', ''d''])]
   = Inr [(0, [demo_student ''a'' 1 ''Maths'', demo_student ''b'' 1 ''Maths'']),
          (1, [demo_student ''c'' 2 ''Maths'', demo_student ''d'' 2 ''Maths''])]"
  by code_simp

text \<open>
  C2: whenever \<open>assign_rooms_to_groups\<close> returns a mapping, for a catalog whose room names
  differ and groups whose student ids differ, the mapping has one entry per room name,
  its lists hold every id of the input groups exactly once, and every entry belongs to a
  room of the catalog such that, for the \<open>Student\<close> objects \<open>L\<close> of the ids listed for it,
  the number of ids is at most the room's capacity, every year is in the room's allowed
  years, and the number of distinct subjects, branches, departments and years is at most
  the respective ceiling whenever that ceiling is positive.
\<close>

theorem assign_rooms_to_groups_sound:
  assumes "assign_rooms_to_groups to_int groups student_metadata rooms_config = Inr res"
    and "distinct (map cfg_room_name rooms_config)"
    and "distinct (concat (map snd groups))"
  shows "distinct (map fst res)
     \<and> mset (concat (map snd res)) = mset (concat (map snd groups))
     \<and> distinct (concat (map snd res))
     \<and> (\<forall>(rid, ids) \<in> set res. \<exists>config \<in> set rooms_config. \<exists>L.
          cfg_room_name config = rid
          \<and> make_students to_int student_metadata ids = Inr L
          \<and> int (length ids) \<le> capacity (RoomConfig_init config)
          \<and> (\<forall>s \<in> set L. year s \<in> allowed_years (RoomConfig_init config))
          \<and> (max_subjects (RoomConfig_init config) > 0 \<longrightarrow>
               int (card (subject ` set L)) \<le> max_subjects (RoomConfig_init config))
          \<and> (max_branches (RoomConfig_init config) > 0 \<longrightarrow>
               int (card (branch ` set L)) \<le> max_branches (RoomConfig_init config))
          \<and> (max_departments (RoomConfig_init config) > 0 \<longrightarrow>
               int (card (department ` set L)) \<le> max_departments (RoomConfig_init config))
          \<and> (max_years (RoomConfig_init config) > 0 \<longrightarrow>
               int (card (year ` set L)) \<le> max_years (RoomConfig_init config)))"
proof -
  let ?result = "assign_rooms_to_groups to_int groups student_metadata rooms_config"
  obtain sgs where sg: "make_student_groups to_int student_metadata groups = Inr sgs"
  proof (cases "make_student_groups to_int student_metadata groups")
    case (Inl e)
    then have "?result = Inl e" by (simp only: assign_rooms_to_groups_def Let_def sum.case)
    with assms(1) show ?thesis by simp
  next
    case (Inr sgs)
    with that show ?thesis .
  qed
  have lay: "full_valid_layout to_int groups student_metadata rooms_config res"
  proof -
    note o = assign_rooms_outcome [OF assms(2,3) sg]
    show ?thesis
    proof (cases "int (length (concat (map snd groups))) > sum_list (map cfg_capacity rooms_config)")
      case True
      with o have "\<exists>e. ?result = Inl e" by (simp only: if_True) (rule exI, rule refl)
      with assms(1) show ?thesis by auto
    next
      case False
      show ?thesis
      proof (cases "\<exists>rs. valid_assignment (map RoomConfig_init rooms_config) (map snd sgs) rs")
        case True
        with o False have "\<exists>res. ?result = Inr res
            \<and> full_valid_layout to_int groups student_metadata rooms_config res"
          by (simp only: if_True if_False)
        with assms(1) show ?thesis by auto
      next
        case no: False
        with o False have "\<exists>e. ?result = Inl e" by (simp only: if_False) (rule exI, rule refl)
        with assms(1) show ?thesis by auto
      qed
    qed
  qed
  from lay have 1: "distinct (map fst res)" by (simp add: full_valid_layout_def)
  from lay have 2: "mset (concat (map snd res)) = mset (concat (map snd groups))"
    by (simp add: full_valid_layout_def)
  from 2 assms(3) have 3: "distinct (concat (map snd res))"
    using mset_eq_imp_distinct_iff by blast
  have 4: "\<forall>p \<in> set res. case p of (rid, ids) \<Rightarrow> \<exists>config \<in> set rooms_config. \<exists>L.
          cfg_room_name config = rid
          \<and> make_students to_int student_metadata ids = Inr L
          \<and> int (length ids) \<le> capacity (RoomConfig_init config)
          \<and> (\<forall>s \<in> set L. year s \<in> allowed_years (RoomConfig_init config))
          \<and> (max_subjects (RoomConfig_init config) > 0 \<longrightarrow>
               int (card (subject ` set L)) \<le> max_subjects (RoomConfig_init config))
          \<and> (max_branches (RoomConfig_init config) > 0 \<longrightarrow>
               int (card (branch ` set L)) \<le> max_branches (RoomConfig_init config))
          \<and> (max_departments (RoomConfig_init config) > 0 \<longrightarrow>
               int (card (department ` set L)) \<le> max_departments (RoomConfig_init config))
          \<and> (max_years (RoomConfig_init config) > 0 \<longrightarrow>
               int (card (year ` set L)) \<le> max_years (RoomConfig_init config))"
  proof (rule ballI)
    fix p assume m: "p \<in> set res"
    obtain rid ids where p: "p = (rid, ids)" by (cases p)
    from lay have all: "\<forall>p \<in> set res. case p of (rid, ids) \<Rightarrow> ids \<noteq> []
          \<and> (\<exists>config \<in> set rooms_config. cfg_room_name config = rid
               \<and> (\<exists>L. make_students to_int student_metadata ids = Inr L
                    \<and> room_fits (RoomConfig_init config) L))"
      unfolding full_valid_layout_def by (elim conjE)
    from bspec [OF all m] have "ids \<noteq> []
          \<and> (\<exists>config \<in> set rooms_config. cfg_room_name config = rid
               \<and> (\<exists>L. make_students to_int student_metadata ids = Inr L
                    \<and> room_fits (RoomConfig_init config) L))"
      unfolding p prod.case .
    then obtain config L where c: "config \<in> set rooms_config" and n: "cfg_room_name config = rid"
      and mk: "make_students to_int student_metadata ids = Inr L"
      and f: "room_fits (RoomConfig_init config) L"
      by blast
    let ?room = "RoomConfig_init config"
    from make_students_Inr [OF mk] have "map sid L = ids" ..
    then have len: "length ids = length L" by auto
    from f have a: "int (length ids) \<le> capacity ?room"
      by (simp add: room_fits_def len)
    from f have "group_years L \<subseteq> allowed_years ?room" by (simp add: room_fits_def)
    then have b: "\<forall>s \<in> set L. year s \<in> allowed_years ?room"
      by (auto simp: group_years_def)
    from f have c1: "max_subjects ?room > 0 \<longrightarrow> int (card (subject ` set L)) \<le> max_subjects ?room"
      by (simp add: room_fits_def ceiling_ok_def group_subjects_def)
    from f have c2: "max_branches ?room > 0 \<longrightarrow> int (card (branch ` set L)) \<le> max_branches ?room"
      by (simp add: room_fits_def ceiling_ok_def group_branches_def)
    from f have c3: "max_departments ?room > 0 \<longrightarrow>
        int (card (department ` set L)) \<le> max_departments ?room"
      by (simp add: room_fits_def ceiling_ok_def group_departments_def)
    from f have c4: "max_years ?room > 0 \<longrightarrow> int (card (year ` set L)) \<le> max_years ?room"
      by (simp add: room_fits_def ceiling_ok_def group_years_def)
    from c n mk a b c1 c2 c3 c4
    have "\<exists>config \<in> set rooms_config. \<exists>L.
          cfg_room_name config = rid
          \<and> make_students to_int student_metadata ids = Inr L
          \<and> int (length ids) \<le> capacity (RoomConfig_init config)
          \<and> (\<forall>s \<in> set L. year s \<in> allowed_years (RoomConfig_init config))
          \<and> (max_subjects (RoomConfig_init config) > 0 \<longrightarrow>
               int (card (subject ` set L)) \<le> max_subjects (RoomConfig_init config))
          \<and> (max_branches (RoomConfig_init config) > 0 \<longrightarrow>
               int (card (branch ` set L)) \<le> max_branches (RoomConfig_init config))
          \<and> (max_departments (RoomConfig_init config) > 0 \<longrightarrow>
               int (card (department ` set L)) \<le> max_departments (RoomConfig_init config))
          \<and> (max_years (RoomConfig_init config) > 0 \<longrightarrow>
               int (card (year ` set L)) \<le> max_years (RoomConfig_init config))"
      by (intro bexI [of _ config] exI [of _ L] conjI)
    then show "case p of (rid, ids) \<Rightarrow> \<exists>config \<in> set rooms_config. \<exists>L.
          cfg_room_name config = rid
          \<and> make_students to_int student_metadata ids = Inr L
          \<and> int (length ids) \<le> capacity (RoomConfig_init config)
          \<and> (\<forall>s \<in> set L. year s \<in> allowed_years (RoomConfig_init config))
          \<and> (max_subjects (RoomConfig_init config) > 0 \<longrightarrow>
               int (card (subject ` set L)) \<le> max_subjects (RoomConfig_init config))
          \<and> (max_branches (RoomConfig_init config) > 0 \<longrightarrow>
               int (card (branch ` set L)) \<le> max_branches (RoomConfig_init config))
          \<and> (max_departments (RoomConfig_init config) > 0 \<longrightarrow>
               int (card (department ` set L)) \<le> max_departments (RoomConfig_init config))
          \<and> (max_years (RoomConfig_init config) > 0 \<longrightarrow>
               int (card (year ` set L)) \<le> max_years (RoomConfig_init config))"
      unfolding p prod.case .
  qed
  from 1 2 3 4 show ?thesis by (intro conjI)
qed

theorem assign_rooms_to_groups_sound_witness:
  "assign_rooms_to_groups demo_int [(0, [''a'', ''b'']), (1, [''c'', ''d''])] demo_student_metadata
     demo_catalog
   = Inr [(''R1'', [''c'', ''d'']), (''R2'', [''a'', ''b''])]
   \<and> distinct (map cfg_room_name demo_catalog)
   \<and> distinct (concat (map snd [(0::nat, [''a'', ''b'']), (1, [''c'', ''d''])]))
   \<and> distinct (concat (map snd [(''R1'', [''c'', ''d'']), (''R2'', [''a'', ''b''])]))
   \<and> (\<forall>(rid, ids) \<in> set [(''R1'', [''c'', ''d'']), (''R2'', [''a'', ''b''])].
        \<exists>config \<in> set demo_catalog. \<exists>L.
          cfg_room_name config = rid
          \<and> make_students demo_int demo_student_metadata ids = Inr L
          \<and> int (length ids) \<le> capacity (RoomConfig_init config)
          \<and> (\<forall>s \<in> set L. year s \<in> allowed_years (RoomConfig_init config))
          \<and> (max_subjects (RoomConfig_init config) > 0 \<longrightarrow>
               int (card (subject ` set L)) \<le> max_subjects (RoomConfig_init config))
          \<and> (max_branches (RoomConfig_init config) > 0 \<longrightarrow>
               int (card (branch ` set L)) \<le> max_branches (RoomConfig_init config))
          \<and> (max_departments (RoomConfig_init config) > 0 \<longrightarrow>
               int (card (department ` set L)) \<le> max_departments (RoomConfig_init config))
          \<and> (max_years (RoomConfig_init config) > 0 \<longrightarrow>
               int (card (year ` set L)) \<le> max_years (RoomConfig_init config)))"
proof -
  note t = assign_rooms_to_groups_sound [OF demo_assignment demo_catalog_names demo_groups_ids]
  from t have 3: "distinct (concat (map snd [(''R1'', [''c'', ''d'']), (''R2'', [''a'', ''b''])]))"
    by (elim conjE)
  from t have 4: "\<forall>(rid, ids) \<in> set [(''R1'', [''c'', ''d'']), (''R2'', [''a'', ''b''])].
        \<exists>config \<in> set demo_catalog. \<exists>L.
          cfg_room_name config = rid
          \<and> make_students demo_int demo_student_metadata ids = Inr L
          \<and> int (length ids) \<le> capacity (RoomConfig_init config)
          \<and> (\<forall>s \<in> set L. year s \<in> allowed_years (RoomConfig_init config))
          \<and> (max_subjects (RoomConfig_init config) > 0 \<longrightarrow>
               int (card (subject ` set L)) \<le> max_subjects (RoomConfig_init config))
          \<and> (max_branches (RoomConfig_init config) > 0 \<longrightarrow>
               int (card (branch ` set L)) \<le> max_branches (RoomConfig_init config))
          \<and> (max_departments (RoomConfig_init config) > 0 \<longrightarrow>
               int (card (department ` set L)) \<le> max_departments (RoomConfig_init config))
          \<and> (max_years (RoomConfig_init config) > 0 \<longrightarrow>
               int (card (year ` set L)) \<le> max_years (RoomConfig_init config))"
    by (elim conjE)
  from demo_assignment demo_catalog_names demo_groups_ids 3 4 show ?thesis by (intro conjI)
qed

text \<open>
  C3, as stated, fails. Both failures of the allocator are the same generic exception,
  \<open>ValueError\<close>, told apart only by their message, and the message of the capacity
  failure holds the two totals (3 students for 2 seats), not the shortage; and there is a
  further failure: an id without metadata raises \<open>KeyError\<close> although the room has a seat
  for the student.
\<close>

theorem assign_rooms_to_groups_failures_counterexample:
  "assign_rooms_to_groups demo_int [(0, [''a'', ''b'', ''c''])] demo_student_metadata
     [demo_room_dict ''R1'' 2]
   = Inl (ValueError ''Not enough room capacity. Need 3 seats, have 2'')
   \<and> assign_rooms_to_groups demo_int [(0, [''a'', ''b'', ''c''])] demo_student_metadata
       [demo_room_dict ''R1'' 2, demo_room_dict ''R2'' 2]
     = Inl (ValueError ''No valid room assignment possible with current constraints'')
   \<and> assign_rooms_to_groups demo_int [(0, [''z''])] demo_student_metadata [demo_room_dict ''R1'' 2]
     = Inl (KeyError ''z'')"
  by code_simp

text \<open>
  C3, amended: for a catalog whose room names differ and groups whose student ids
  differ, an exception raised while the \<open>Student\<close> objects are built (\<open>KeyError\<close> for an id
  without metadata, or the exception of \<open>int\<close>) is the outcome. Otherwise there are
  exactly two failures, both a \<open>ValueError\<close>: the capacity message with the number of
  students and the number of seats when the students outnumber the seats, whatever the
  two passes would do; and the message of the backtracking pass when the seats suffice
  and no assignment of every group to one room of the catalog satisfies all constraints.
  In every other case the outcome is a mapping that is a full and valid layout.
\<close>

theorem assign_rooms_to_groups_outcomes:
  assumes "distinct (map cfg_room_name rooms_config)"
    and "distinct (concat (map snd groups))"
  shows "case make_student_groups to_int student_metadata groups of
           Inl e \<Rightarrow> assign_rooms_to_groups to_int groups student_metadata rooms_config = Inl e
         | Inr student_groups \<Rightarrow>
             (if int (length (concat (map snd groups))) > sum_list (map cfg_capacity rooms_config)
              then assign_rooms_to_groups to_int groups student_metadata rooms_config
                   = Inl (ValueError (''Not enough room capacity. Need ''
                            @ str_int (int (length (concat (map snd groups))))
                            @ '' seats, have '' @ str_int (sum_list (map cfg_capacity rooms_config))))
              else if \<exists>rs. valid_assignment (map RoomConfig_init rooms_config)
                             (map snd student_groups) rs
              then \<exists>res. assign_rooms_to_groups to_int groups student_metadata rooms_config = Inr res
                     \<and> full_valid_layout to_int groups student_metadata rooms_config res
              else assign_rooms_to_groups to_int groups student_metadata rooms_config
                   = Inl (ValueError ''No valid room assignment possible with current constraints''))"
proof (cases "make_student_groups to_int student_metadata groups")
  case (Inl e)
  then have "assign_rooms_to_groups to_int groups student_metadata rooms_config = Inl e"
    by (simp only: assign_rooms_to_groups_def Let_def sum.case)
  then show ?thesis unfolding Inl sum.case .
next
  case (Inr sgs)
  from assign_rooms_outcome [OF assms Inr] show ?thesis unfolding Inr sum.case .
qed

theorem assign_rooms_to_groups_outcomes_witness:
  "distinct (map cfg_room_name demo_catalog)
   \<and> distinct (concat (map snd [(0::nat, [''a'', ''b'']), (1, [''c'', ''d''])]))
   \<and> make_student_groups demo_int demo_student_metadata [(0, [''a'', ''b'']), (1, [''c'', ''d''])]
       = Inr [(0, [demo_student ''a'' 1 ''Maths'', demo_student ''b'' 1 ''Maths'']),
              (1, [demo_student ''c'' 2 ''Maths'', demo_student ''d'' 2 ''Maths''])]
   \<and> \<not> int (length (concat (map snd [(0::nat, [''a'', ''b'']), (1, [''c'', ''d''])])))
         > sum_list (map cfg_capacity demo_catalog)
   \<and> (\<exists>rs. valid_assignment (map RoomConfig_init demo_catalog)
              [[demo_student ''a'' 1 ''Maths'', demo_student ''b'' 1 ''Maths''],
               [demo_student ''c'' 2 ''Maths'', demo_student ''d'' 2 ''Maths'']] rs)
   \<and> first_fit_decreasing
        [(0, [demo_student ''a'' 1 ''Maths'', demo_student ''b'' 1 ''Maths'']),
         (1, [demo_student ''c'' 2 ''Maths'', demo_student ''d'' 2 ''Maths''])]
        (map RoomConfig_init demo_catalog) = None
   \<and> full_valid_layout demo_int [(0, [''a'', ''b'']), (1, [''c'', ''d''])] demo_student_metadata
        demo_catalog [(''R1'', [''c'', ''d'']), (''R2'', [''a'', ''b''])]"
proof -
  let ?G = "[(0::nat, [''a'', ''b'']), (1, [''c'', ''d''])]"
  let ?gs = "[[demo_student ''a'' 1 ''Maths'', demo_student ''b'' 1 ''Maths''],
               [demo_student ''c'' 2 ''Maths'', demo_student ''d'' 2 ''Maths'']]"
  let ?result = "assign_rooms_to_groups demo_int ?G demo_student_metadata demo_catalog"
  have c: "\<not> int (length (concat (map snd ?G))) > sum_list (map cfg_capacity demo_catalog)"
    by (simp add: demo_catalog_def demo_room_dict_def)
  have m: "map snd [(0::nat, [demo_student ''a'' 1 ''Maths'', demo_student ''b'' 1 ''Maths'']),
              (1, [demo_student ''c'' 2 ''Maths'', demo_student ''d'' 2 ''Maths''])] = ?gs"
    by simp
  from assign_rooms_to_groups_outcomes [OF demo_catalog_names demo_groups_ids,
      of demo_int demo_student_metadata]
  have o: "if \<exists>rs. valid_assignment (map RoomConfig_init demo_catalog) ?gs rs
      then \<exists>res. ?result = Inr res \<and> full_valid_layout demo_int ?G demo_student_metadata demo_catalog res
      else ?result = Inl (ValueError ''No valid room assignment possible with current constraints'')"
    unfolding demo_student_groups sum.case m using c by (simp only: if_False)
  have v: "\<exists>rs. valid_assignment (map RoomConfig_init demo_catalog) ?gs rs"
  proof (rule ccontr)
    assume "\<not> ?thesis"
    with o have "?result = Inl (ValueError ''No valid room assignment possible with current constraints'')"
      by (simp only: if_False)
    with demo_assignment show False by simp
  qed
  with o have "\<exists>res. ?result = Inr res \<and> full_valid_layout demo_int ?G demo_student_metadata demo_catalog res"
    by (simp only: if_True)
  then obtain res where r: "?result = Inr res"
    and l: "full_valid_layout demo_int ?G demo_student_metadata demo_catalog res"
    by blast
  from r demo_assignment have "res = [(''R1'', [''c'', ''d'']), (''R2'', [''a'', ''b''])]" by simp
  with l have l': "full_valid_layout demo_int ?G demo_student_metadata demo_catalog
      [(''R1'', [''c'', ''d'']), (''R2'', [''a'', ''b''])]"
    by simp
  from demo_catalog_names demo_groups_ids demo_student_groups c v demo_first_fit_fails l'
  show ?thesis by (intro conjI)
qed

end
